theory Spec2Isabelle
  imports Main "HOL-Library.Word"
begin

unbundle bit_operations_syntax

text \<open>
  A shallow embedding of the frontend services of the application: the masking utility
  and the tray service of \<open>system-tray-service.ts\<close>, the encryption provider of
  \<open>config-export-manager/encryption-provider.ts\<close> and \<open>getBackupList\<close> of the
  Antigravity service. The definitions come first, section by section as the sources
  have them; the properties follow.
\<close>

section \<open>JavaScript strings\<close>

text \<open>
  A JavaScript string is a finite sequence of 16-bit code units; \<open>length\<close>,
  \<open>charAt\<close>, \<open>charCodeAt\<close>, \<open>substring\<close> and \<open>lastIndexOf\<close> all count code
  units. \<open>js\<close> turns an ASCII literal of HOL into such a string.
\<close>

type_synonym unit16 = "16 word"
type_synonym jsstring = "unit16 list"

definition js :: "string \<Rightarrow> jsstring" where
  "js s = map of_char s"

text \<open>\<open>s.lastIndexOf(c)\<close> for a one-unit search string: the greatest index holding
  \<open>c\<close>, or \<open>-1\<close>.\<close>

fun lastIndexOf :: "jsstring \<Rightarrow> unit16 \<Rightarrow> int" where
  "lastIndexOf [] c = -1"
| "lastIndexOf (x # xs) c =
     (let r = lastIndexOf xs c
      in if 0 \<le> r then r + 1 else if x = c then 0 else -1)"

text \<open>\<open>s.substring(start, end)\<close>: both arguments are clamped to \<open>[0, length]\<close>
  and swapped when out of order; \<open>s.substring(start)\<close> runs to the end.\<close>

definition clamp_index :: "jsstring \<Rightarrow> int \<Rightarrow> nat" where
  "clamp_index s i = nat (min (max i 0) (int (length s)))"

definition substring :: "jsstring \<Rightarrow> int \<Rightarrow> int \<Rightarrow> jsstring" where
  "substring s start end =
     (let a = clamp_index s start; b = clamp_index s end
      in take (max a b - min a b) (drop (min a b) s))"

definition substring_from :: "jsstring \<Rightarrow> int \<Rightarrow> jsstring" where
  "substring_from s start = drop (clamp_index s start) s"

text \<open>\<open>s.charAt(i)\<close>: the one-unit string at \<open>i\<close>, the empty string out of range.\<close>

definition charAt :: "jsstring \<Rightarrow> int \<Rightarrow> jsstring" where
  "charAt s i = (if 0 \<le> i \<and> i < int (length s) then [s ! nat i] else [])"

section \<open>Masking utility (system-tray-service.ts)\<close>

abbreviation AT :: unit16 where "AT \<equiv> 0x40"
abbreviation STAR :: unit16 where "STAR \<equiv> 0x2A"

text \<open>The loop \<open>for (let i = 0; i < localPart.length - 2; i++) stars += '*'\<close>.\<close>

function stars_loop :: "int \<Rightarrow> int \<Rightarrow> jsstring \<Rightarrow> jsstring" where
  "stars_loop i n stars = (if i < n then stars_loop (i + 1) n (stars @ [STAR]) else stars)"
  by pat_completeness auto
termination
  by (relation "measure (\<lambda>(i, n, stars). nat (n - i))") auto

declare stars_loop.simps [simp del]

definition maskUsername :: "jsstring \<Rightarrow> jsstring" where
  "maskUsername email =
     (if email = [] then email
      else
        let atIndex = lastIndexOf email AT in
        if atIndex \<le> 0 \<or> atIndex \<ge> int (length email) - 1 then email
        else
          let localPart = substring email 0 atIndex;
              domainPart = substring_from email atIndex
          in
          if length localPart \<le> 2 then email
          else if length localPart = 2 then charAt localPart 0 @ [STAR] @ domainPart
          else
            charAt localPart 0 @ stars_loop 0 (int (length localPart) - 2) []
              @ charAt localPart (int (length localPart) - 1) @ domainPart)"

definition maskBackupFilename :: "jsstring \<Rightarrow> jsstring" where
  "maskBackupFilename backupFile =
     (if backupFile = [] then backupFile else maskUsername backupFile)"

section \<open>Password validation (encryption-provider.ts)\<close>

datatype password_message = EnterPassword | PasswordTooShort

record validation =
  isValid :: bool
  message :: "password_message option"

definition validatePassword :: "jsstring \<Rightarrow> validation" where
  "validatePassword password =
     (if password = [] \<or> length password = 0
      then \<lparr>isValid = False, message = Some EnterPassword\<rparr>
      else if length password < 4
      then \<lparr>isValid = False, message = Some PasswordTooShort\<rparr>
      else \<lparr>isValid = True, message = None\<rparr>)"

section \<open>Platform functions used by the encryption provider\<close>

text \<open>
  The provider runs in the desktop shell's web view and calls the platform's
  \<open>TextEncoder\<close>, \<open>TextDecoder\<close>, \<open>btoa\<close>, \<open>atob\<close>, \<open>encodeURIComponent\<close>,
  \<open>decodeURIComponent\<close>, \<open>escape\<close> and \<open>unescape\<close>. They are modelled here after
  the WHATWG Encoding and HTML standards and ECMA-262, as executable functions.
\<close>

datatype error = InvalidCharacterError | URIError | Base64DecodeFailed | DecryptFailed

type_synonym byte = "8 word"

subsection \<open>Numbers, \<open>charCodeAt\<close>, \<open>^\<close> and \<open>String.fromCharCode\<close>\<close>

text \<open>Only the numbers the provider computes with: integers and \<open>NaN\<close>.\<close>

datatype number = NaN | Num int

text \<open>\<open>i % n\<close> on non-negative integers: \<open>NaN\<close> when \<open>n\<close> is zero.\<close>

definition js_mod :: "nat \<Rightarrow> nat \<Rightarrow> number" where
  "js_mod i n = (if n = 0 then NaN else Num (int (i mod n)))"

text \<open>\<open>s.charCodeAt(pos)\<close>: a \<open>NaN\<close> position counts as 0; out of range the
  result is \<open>NaN\<close>.\<close>

definition charCodeAt :: "jsstring \<Rightarrow> number \<Rightarrow> number" where
  "charCodeAt s pos =
     (let p = (case pos of NaN \<Rightarrow> 0 | Num k \<Rightarrow> k)
      in if 0 \<le> p \<and> p < int (length s) then Num (uint (s ! nat p)) else NaN)"

definition ToInt32 :: "number \<Rightarrow> 32 word" where
  "ToInt32 x = (case x of NaN \<Rightarrow> 0 | Num k \<Rightarrow> word_of_int k)"

definition ToUint16 :: "number \<Rightarrow> unit16" where
  "ToUint16 x = (case x of NaN \<Rightarrow> 0 | Num k \<Rightarrow> word_of_int k)"

definition js_xor :: "number \<Rightarrow> number \<Rightarrow> number" where
  "js_xor a b = Num (sint (ToInt32 a XOR ToInt32 b))"

definition fromCharCode :: "number \<Rightarrow> jsstring" where
  "fromCharCode x = [ToUint16 x]"

subsection \<open>UTF-16 and UTF-8\<close>

definition is_high_surrogate :: "unit16 \<Rightarrow> bool" where
  "is_high_surrogate u = (0xD800 \<le> u \<and> u \<le> 0xDBFF)"

definition is_low_surrogate :: "unit16 \<Rightarrow> bool" where
  "is_low_surrogate u = (0xDC00 \<le> u \<and> u \<le> 0xDFFF)"

definition pair_code_point :: "unit16 \<Rightarrow> unit16 \<Rightarrow> nat" where
  "pair_code_point u v = 0x10000 + (unat u - 0xD800) * 0x400 + (unat v - 0xDC00)"

text \<open>Conversion of a string to scalar values: a surrogate pair is one code point,
  an unpaired surrogate becomes U+FFFD.\<close>

fun to_scalar_values :: "jsstring \<Rightarrow> nat list" where
  "to_scalar_values [] = []"
| "to_scalar_values [u] =
     (if is_high_surrogate u \<or> is_low_surrogate u then [0xFFFD] else [unat u])"
| "to_scalar_values (u # v # vs) =
     (if is_high_surrogate u \<and> is_low_surrogate v
      then pair_code_point u v # to_scalar_values vs
      else (if is_high_surrogate u \<or> is_low_surrogate u then 0xFFFD else unat u)
             # to_scalar_values (v # vs))"

definition utf16_encode_code_point :: "nat \<Rightarrow> jsstring" where
  "utf16_encode_code_point cp =
     (if cp < 0x10000 then [of_nat cp]
      else [of_nat (0xD800 + (cp - 0x10000) div 0x400),
            of_nat (0xDC00 + (cp - 0x10000) mod 0x400)])"

definition utf8_encode_code_point :: "nat \<Rightarrow> byte list" where
  "utf8_encode_code_point cp =
     (if cp < 0x80 then [of_nat cp]
      else if cp < 0x800 then [of_nat (0xC0 + cp div 0x40), of_nat (0x80 + cp mod 0x40)]
      else if cp < 0x10000 then
        [of_nat (0xE0 + cp div 0x1000), of_nat (0x80 + cp div 0x40 mod 0x40),
         of_nat (0x80 + cp mod 0x40)]
      else
        [of_nat (0xF0 + cp div 0x40000), of_nat (0x80 + cp div 0x1000 mod 0x40),
         of_nat (0x80 + cp div 0x40 mod 0x40), of_nat (0x80 + cp mod 0x40)])"

text \<open>\<open>new TextEncoder().encode(str)\<close>: never throws.\<close>

definition TextEncoder_encode :: "jsstring \<Rightarrow> byte list" where
  "TextEncoder_encode str = concat (map utf8_encode_code_point (to_scalar_values str))"

text \<open>The UTF-8 decoder of the Encoding standard, in replacement mode: the state is
  the code point under construction, the bytes seen and needed, and the bounds of the
  next continuation byte. A byte that breaks a sequence yields U+FFFD and is read
  again in the initial state.\<close>

record utf8_state =
  code_point :: nat
  bytes_seen :: nat
  bytes_needed :: nat
  lower_boundary :: nat
  upper_boundary :: nat

definition utf8_initial :: utf8_state where
  "utf8_initial =
     \<lparr>code_point = 0, bytes_seen = 0, bytes_needed = 0,
      lower_boundary = 0x80, upper_boundary = 0xBF\<rparr>"

definition utf8_lead :: "nat \<Rightarrow> utf8_state option" where
  "utf8_lead x =
     (if 0xC2 \<le> x \<and> x \<le> 0xDF then
        Some (utf8_initial\<lparr>bytes_needed := 1, code_point := x mod 0x20\<rparr>)
      else if 0xE0 \<le> x \<and> x \<le> 0xEF then
        Some \<lparr>code_point = x mod 0x10, bytes_seen = 0, bytes_needed = 2,
              lower_boundary = (if x = 0xE0 then 0xA0 else 0x80),
              upper_boundary = (if x = 0xED then 0x9F else 0xBF)\<rparr>
      else if 0xF0 \<le> x \<and> x \<le> 0xF4 then
        Some \<lparr>code_point = x mod 0x08, bytes_seen = 0, bytes_needed = 3,
              lower_boundary = (if x = 0xF0 then 0x90 else 0x80),
              upper_boundary = (if x = 0xF4 then 0x8F else 0xBF)\<rparr>
      else None)"

function utf8_decoder :: "utf8_state \<Rightarrow> byte list \<Rightarrow> nat list" where
  "utf8_decoder st [] = (if bytes_needed st \<noteq> 0 then [0xFFFD] else [])"
| "utf8_decoder st (b # bs) =
     (if bytes_needed st = 0 then
        (if unat b \<le> 0x7F then unat b # utf8_decoder utf8_initial bs
         else
           (case utf8_lead (unat b) of
              Some st' \<Rightarrow> utf8_decoder st' bs
            | None \<Rightarrow> 0xFFFD # utf8_decoder utf8_initial bs))
      else if \<not> (lower_boundary st \<le> unat b \<and> unat b \<le> upper_boundary st) then
        0xFFFD # utf8_decoder utf8_initial (b # bs)
      else if bytes_seen st + 1 \<noteq> bytes_needed st then
        utf8_decoder
          (st\<lparr>code_point := code_point st * 0x40 + unat b mod 0x40,
              bytes_seen := bytes_seen st + 1,
              lower_boundary := 0x80, upper_boundary := 0xBF\<rparr>) bs
      else
        (code_point st * 0x40 + unat b mod 0x40) # utf8_decoder utf8_initial bs)"
  by pat_completeness auto
termination
  by (relation "measure (\<lambda>(st, bs). 2 * length bs + (if bytes_needed st = 0 then 0 else 1))")
     (auto simp: utf8_initial_def)

declare utf8_decoder.simps [simp del]

text \<open>\<open>new TextDecoder().decode(bytes)\<close> with the default options: not fatal, and a
  leading byte order mark U+FEFF is dropped from the output. It never throws.\<close>

definition strip_bom :: "nat list \<Rightarrow> nat list" where
  "strip_bom cps = (case cps of [] \<Rightarrow> [] | c # cs \<Rightarrow> if c = 0xFEFF then cs else c # cs)"

definition TextDecoder_decode :: "byte list \<Rightarrow> jsstring" where
  "TextDecoder_decode bytes =
     concat (map utf16_encode_code_point (strip_bom (utf8_decoder utf8_initial bytes)))"

subsection \<open>Base64: \<open>btoa\<close> and \<open>atob\<close>\<close>

definition b64_char :: "nat \<Rightarrow> unit16" where
  "b64_char n =
     (if n < 26 then of_nat (0x41 + n)
      else if n < 52 then of_nat (0x61 + (n - 26))
      else if n < 62 then of_nat (0x30 + (n - 52))
      else if n = 62 then 0x2B
      else 0x2F)"

definition b64_value :: "unit16 \<Rightarrow> nat option" where
  "b64_value u =
     (if 0x41 \<le> u \<and> u \<le> 0x5A then Some (unat u - 0x41)
      else if 0x61 \<le> u \<and> u \<le> 0x7A then Some (unat u - 0x61 + 26)
      else if 0x30 \<le> u \<and> u \<le> 0x39 then Some (unat u - 0x30 + 52)
      else if u = 0x2B then Some 62
      else if u = 0x2F then Some 63
      else None)"

abbreviation PAD :: unit16 where "PAD \<equiv> 0x3D"

fun base64_encode :: "byte list \<Rightarrow> jsstring" where
  "base64_encode [] = []"
| "base64_encode [a] =
     [b64_char (unat a div 4), b64_char (unat a mod 4 * 16), PAD, PAD]"
| "base64_encode [a, b] =
     [b64_char (unat a div 4), b64_char (unat a mod 4 * 16 + unat b div 16),
      b64_char (unat b mod 16 * 4), PAD]"
| "base64_encode (a # b # c # rest) =
     [b64_char (unat a div 4), b64_char (unat a mod 4 * 16 + unat b div 16),
      b64_char (unat b mod 16 * 4 + unat c div 64), b64_char (unat c mod 64)]
     @ base64_encode rest"

text \<open>\<open>btoa(binary)\<close>: throws when a code unit is above U+00FF.\<close>

definition btoa :: "jsstring \<Rightarrow> error + jsstring" where
  "btoa binary =
     (if \<exists>u \<in> set binary. 0xFF < u then Inl InvalidCharacterError
      else Inr (base64_encode (map ucast binary)))"

definition is_ascii_whitespace :: "unit16 \<Rightarrow> bool" where
  "is_ascii_whitespace u = (u = 0x09 \<or> u = 0x0A \<or> u = 0x0C \<or> u = 0x0D \<or> u = 0x20)"

text \<open>The groups of sextets: four give three bytes; of a last group of three the low
  two bits are discarded, of a last group of two the low four bits.\<close>

fun base64_decode_sextets :: "nat list \<Rightarrow> byte list" where
  "base64_decode_sextets (a # b # c # d # rest) =
     [of_nat (a * 4 + b div 16), of_nat (b mod 16 * 16 + c div 4), of_nat (c mod 4 * 64 + d)]
     @ base64_decode_sextets rest"
| "base64_decode_sextets [a, b, c] =
     [of_nat (a * 4 + b div 16), of_nat (b mod 16 * 16 + c div 4)]"
| "base64_decode_sextets [a, b] = [of_nat (a * 4 + b div 16)]"
| "base64_decode_sextets _ = []"

definition strip_padding :: "jsstring \<Rightarrow> jsstring" where
  "strip_padding d =
     (if length d mod 4 = 0 then
        (if 2 \<le> length d \<and> last d = PAD \<and> last (butlast d) = PAD then butlast (butlast d)
         else if 1 \<le> length d \<and> last d = PAD then butlast d
         else d)
      else d)"

fun those_values :: "unit16 list \<Rightarrow> nat list option" where
  "those_values [] = Some []"
| "those_values (u # us) =
     (case b64_value u of
        None \<Rightarrow> None
      | Some v \<Rightarrow> (case those_values us of None \<Rightarrow> None | Some vs \<Rightarrow> Some (v # vs)))"

text \<open>\<open>atob(data)\<close>, the forgiving Base64 decoder: ASCII whitespace is removed, one
  or two padding characters are removed from data whose length is a multiple of four,
  a remaining length of 1 modulo 4 or a character outside the alphabet throws.\<close>

definition atob :: "jsstring \<Rightarrow> error + jsstring" where
  "atob data =
     (let d = strip_padding (filter (\<lambda>u. \<not> is_ascii_whitespace u) data)
      in if length d mod 4 = 1 then Inl InvalidCharacterError
         else
           (case those_values d of
              None \<Rightarrow> Inl InvalidCharacterError
            | Some vs \<Rightarrow> Inr (map ucast (base64_decode_sextets vs))))"

subsection \<open>The URI and escape functions of the fallback paths\<close>

definition is_alnum :: "unit16 \<Rightarrow> bool" where
  "is_alnum u =
     ((0x30 \<le> u \<and> u \<le> 0x39) \<or> (0x41 \<le> u \<and> u \<le> 0x5A) \<or> (0x61 \<le> u \<and> u \<le> 0x7A))"

text \<open>The characters \<open>encodeURIComponent\<close> leaves alone: alphanumerics and
  \<open>- _ . ! ~ * ' ( )\<close>; those \<open>escape\<close> leaves alone: alphanumerics and
  \<open>@ * _ + - . /\<close>.\<close>

definition uri_unreserved :: "unit16 \<Rightarrow> bool" where
  "uri_unreserved u =
     (is_alnum u \<or> u \<in> set [0x2D, 0x5F, 0x2E, 0x21, 0x7E, 0x2A, 0x27, 0x28, 0x29])"

definition escape_unescaped :: "unit16 \<Rightarrow> bool" where
  "escape_unescaped u = (is_alnum u \<or> u \<in> set [0x40, 0x2A, 0x5F, 0x2B, 0x2D, 0x2E, 0x2F])"

abbreviation PERCENT :: unit16 where "PERCENT \<equiv> 0x25"

definition hex_digit :: "nat \<Rightarrow> unit16" where
  "hex_digit n = (if n < 10 then of_nat (0x30 + n) else of_nat (0x41 + (n - 10)))"

definition hex_value :: "unit16 \<Rightarrow> nat option" where
  "hex_value u =
     (if 0x30 \<le> u \<and> u \<le> 0x39 then Some (unat u - 0x30)
      else if 0x41 \<le> u \<and> u \<le> 0x46 then Some (unat u - 0x41 + 10)
      else if 0x61 \<le> u \<and> u \<le> 0x66 then Some (unat u - 0x61 + 10)
      else None)"

definition percent_byte :: "byte \<Rightarrow> jsstring" where
  "percent_byte b = [PERCENT, hex_digit (unat b div 16), hex_digit (unat b mod 16)]"

definition prepend :: "jsstring \<Rightarrow> error + jsstring \<Rightarrow> error + jsstring" where
  "prepend xs r = (case r of Inl e \<Rightarrow> Inl e | Inr ys \<Rightarrow> Inr (xs @ ys))"

text \<open>\<open>encodeURIComponent(str)\<close>: every other code point is written as the percent
  escapes of its UTF-8 bytes; an unpaired surrogate throws \<open>URIError\<close>.\<close>

fun encodeURIComponent :: "jsstring \<Rightarrow> error + jsstring" where
  "encodeURIComponent [] = Inr []"
| "encodeURIComponent [u] =
     (if uri_unreserved u then Inr [u]
      else if is_high_surrogate u \<or> is_low_surrogate u then Inl URIError
      else Inr (concat (map percent_byte (utf8_encode_code_point (unat u)))))"
| "encodeURIComponent (u # v # vs) =
     (if uri_unreserved u then prepend [u] (encodeURIComponent (v # vs))
      else if is_low_surrogate u then Inl URIError
      else if is_high_surrogate u then
        (if is_low_surrogate v
         then prepend (concat (map percent_byte (utf8_encode_code_point (pair_code_point u v))))
                (encodeURIComponent vs)
         else Inl URIError)
      else prepend (concat (map percent_byte (utf8_encode_code_point (unat u))))
             (encodeURIComponent (v # vs)))"

text \<open>Two or four hexadecimal digits at the head of a string, as a number.\<close>

definition hex2 :: "jsstring \<Rightarrow> nat option" where
  "hex2 s =
     (case s of
        a # b # _ \<Rightarrow>
          (case (hex_value a, hex_value b) of
             (Some x, Some y) \<Rightarrow> Some (16 * x + y)
           | _ \<Rightarrow> None)
      | _ \<Rightarrow> None)"

definition hex4 :: "jsstring \<Rightarrow> nat option" where
  "hex4 s =
     (case (hex2 s, hex2 (drop 2 s)) of
        (Some x, Some y) \<Rightarrow> Some (256 * x + y)
      | _ \<Rightarrow> None)"

text \<open>\<open>unescape(str)\<close>: \<open>%uXXXX\<close> and \<open>%XX\<close> become the code unit they name; anything
  else is copied.\<close>

fun unescape :: "jsstring \<Rightarrow> jsstring" where
  "unescape [] = []"
| "unescape (c # rest) =
     (if c = PERCENT \<and> rest \<noteq> [] \<and> hd rest = 0x75 \<and> hex4 (tl rest) \<noteq> None
      then (case hex4 (tl rest) of Some v \<Rightarrow> of_nat v # unescape (drop 5 rest) | None \<Rightarrow> [])
      else if c = PERCENT \<and> hex2 rest \<noteq> None
      then (case hex2 rest of Some v \<Rightarrow> of_nat v # unescape (drop 2 rest) | None \<Rightarrow> [])
      else c # unescape rest)"

text \<open>\<open>escape(str)\<close>: a code unit outside the unescaped set becomes \<open>%XX\<close> below 256
  and \<open>%uXXXX\<close> otherwise.\<close>

definition escape_unit :: "unit16 \<Rightarrow> jsstring" where
  "escape_unit u =
     (if escape_unescaped u then [u]
      else if unat u < 256 then [PERCENT, hex_digit (unat u div 16), hex_digit (unat u mod 16)]
      else [PERCENT, 0x75, hex_digit (unat u div 4096), hex_digit (unat u div 256 mod 16),
            hex_digit (unat u div 16 mod 16), hex_digit (unat u mod 16)])"

definition escape :: "jsstring \<Rightarrow> jsstring" where
  "escape s = concat (map escape_unit s)"

text \<open>The number of leading one bits of a byte from a percent escape.\<close>

definition leading_ones :: "nat \<Rightarrow> nat" where
  "leading_ones b =
     (if b < 0x80 then 0 else if b < 0xC0 then 1 else if b < 0xE0 then 2
      else if b < 0xF0 then 3 else if b < 0xF8 then 4 else 5)"

text \<open>The \<open>k\<close> further escapes \<open>%XX\<close> of a multi-byte sequence.\<close>

fun continuation_octets :: "nat \<Rightarrow> jsstring \<Rightarrow> nat list option" where
  "continuation_octets 0 s = Some []"
| "continuation_octets (Suc k) s =
     (case s of
        p # rest \<Rightarrow>
          (if p = PERCENT then
             (case hex2 rest of
                None \<Rightarrow> None
              | Some b \<Rightarrow>
                  (case continuation_octets k (drop 3 s) of
                     None \<Rightarrow> None
                   | Some bs \<Rightarrow> Some (b # bs)))
           else None)
      | [] \<Rightarrow> None)"

text \<open>The octets are a valid UTF-8 encoding of one code point exactly when the decoder
  reads them as one code point without replacing anything.\<close>

definition utf8_valid_code_point :: "nat list \<Rightarrow> nat option" where
  "utf8_valid_code_point octets =
     (case utf8_decoder utf8_initial (map of_nat octets) of
        [cp] \<Rightarrow> if cp = 0xFFFD \<and> octets \<noteq> [0xEF, 0xBF, 0xBD] then None else Some cp
      | _ \<Rightarrow> None)"

text \<open>\<open>decodeURIComponent(str)\<close>: a malformed escape or an escape sequence that is
  not valid UTF-8 throws \<open>URIError\<close>.\<close>

fun decodeURIComponent :: "jsstring \<Rightarrow> error + jsstring" where
  "decodeURIComponent [] = Inr []"
| "decodeURIComponent (c # rest) =
     (if c \<noteq> PERCENT then prepend [c] (decodeURIComponent rest)
      else
        (case hex2 rest of
           None \<Rightarrow> Inl URIError
         | Some b \<Rightarrow>
             (if leading_ones b = 0 then prepend [of_nat b] (decodeURIComponent (drop 2 rest))
              else if leading_ones b = 1 \<or> 4 < leading_ones b then Inl URIError
              else
                (case continuation_octets (leading_ones b - 1) (drop 2 rest) of
                   None \<Rightarrow> Inl URIError
                 | Some bs \<Rightarrow>
                     (case utf8_valid_code_point (b # bs) of
                        None \<Rightarrow> Inl URIError
                      | Some cp \<Rightarrow>
                          prepend (utf16_encode_code_point cp)
                            (decodeURIComponent (drop (2 + 3 * (leading_ones b - 1)) rest)))))))"

section \<open>Encryption provider (encryption-provider.ts)\<close>

text \<open>The loop \<open>for (i = 0; i < data.byteLength; i++) binary += String.fromCharCode(data[i])\<close>.\<close>

definition bytes_to_binary :: "byte list \<Rightarrow> jsstring" where
  "bytes_to_binary data =
     foldl (\<lambda>binary i. binary @ fromCharCode (Num (uint (data ! i)))) [] [0..<length data]"

text \<open>The loop \<open>for (i = 0; i < binary.length; i++) bytes[i] = binary.charCodeAt(i)\<close>
  into a zero-filled \<open>Uint8Array\<close>: a store keeps the low eight bits.\<close>

definition ToUint8 :: "number \<Rightarrow> byte" where
  "ToUint8 x = (case x of NaN \<Rightarrow> 0 | Num k \<Rightarrow> word_of_int k)"

definition binary_to_bytes :: "jsstring \<Rightarrow> byte list" where
  "binary_to_bytes binary =
     foldl (\<lambda>bytes i. bytes[i := ToUint8 (charCodeAt binary (Num (int i)))])
       (replicate (length binary) 0) [0..<length binary]"

text \<open>The \<open>try\<close> block encodes with \<open>TextEncoder\<close>; the \<open>catch\<close> block is the
  fallback \<open>btoa(unescape(encodeURIComponent(str)))\<close>, whose exceptions escape.\<close>

definition unicodeBase64Encode :: "jsstring \<Rightarrow> error + jsstring" where
  "unicodeBase64Encode str =
     (case btoa (bytes_to_binary (TextEncoder_encode str)) of
        Inr encoded \<Rightarrow> Inr encoded
      | Inl _ \<Rightarrow>
          (case encodeURIComponent str of
             Inl e \<Rightarrow> Inl e
           | Inr escaped \<Rightarrow> btoa (unescape escaped)))"

text \<open>The \<open>try\<close> block decodes with \<open>atob\<close> and \<open>TextDecoder\<close>; the \<open>catch\<close> block
  tries \<open>decodeURIComponent(escape(atob(str)))\<close> and throws the provider's Base64
  error when that fails too.\<close>

definition unicodeBase64Decode :: "jsstring \<Rightarrow> error + jsstring" where
  "unicodeBase64Decode str =
     (case atob str of
        Inr binary \<Rightarrow> Inr (TextDecoder_decode (binary_to_bytes binary))
      | Inl _ \<Rightarrow>
          (case atob str of
             Inl _ \<Rightarrow> Inl Base64DecodeFailed
           | Inr binary \<Rightarrow>
               (case decodeURIComponent (escape binary) of
                  Inl _ \<Rightarrow> Inl Base64DecodeFailed
                | Inr decoded \<Rightarrow> Inr decoded)))"

text \<open>The loop shared by \<open>encrypt\<close> and \<open>decrypt\<close>:
  \<open>result += String.fromCharCode(data.charCodeAt(i) ^ password.charCodeAt(i % password.length))\<close>.\<close>

definition xor_loop :: "jsstring \<Rightarrow> jsstring \<Rightarrow> jsstring" where
  "xor_loop data password =
     foldl (\<lambda>result i.
              result @ fromCharCode
                (js_xor (charCodeAt data (Num (int i)))
                   (charCodeAt password (js_mod i (length password)))))
       [] [0..<length data]"

text \<open>The unit of the password the loop combines with the unit at index \<open>i\<close>; used to
  state what the loop computes. For the empty password \<open>i % 0\<close> is \<open>NaN\<close>,
  \<open>charCodeAt\<close> gives \<open>NaN\<close>, and \<open>^\<close> reads it as 0.\<close>

definition key_unit :: "jsstring \<Rightarrow> nat \<Rightarrow> unit16" where
  "key_unit password i = (if password = [] then 0 else password ! (i mod length password))"

definition encrypt :: "jsstring \<Rightarrow> jsstring \<Rightarrow> error + jsstring" where
  "encrypt data password = unicodeBase64Encode (xor_loop data password)"

definition decrypt :: "jsstring \<Rightarrow> jsstring \<Rightarrow> error + jsstring" where
  "decrypt encryptedData password =
     (case unicodeBase64Decode encryptedData of
        Inl _ \<Rightarrow> Inl DecryptFailed
      | Inr data \<Rightarrow> Inr (xor_loop data password))"

subsection \<open>Well-formed strings\<close>

text \<open>Two notions used to state when the round trip holds: a string is well formed
  when it has no unpaired surrogate; a scalar value is a code point that is not a
  surrogate.\<close>

fun well_formed :: "jsstring \<Rightarrow> bool" where
  "well_formed [] = True"
| "well_formed [u] = (\<not> is_high_surrogate u \<and> \<not> is_low_surrogate u)"
| "well_formed (u # v # vs) =
     (if is_high_surrogate u \<and> is_low_surrogate v then well_formed vs
      else \<not> is_high_surrogate u \<and> \<not> is_low_surrogate u \<and> well_formed (v # vs))"

definition scalar_value :: "nat \<Rightarrow> bool" where
  "scalar_value cp = (cp < 0x110000 \<and> \<not> (0xD800 \<le> cp \<and> cp \<le> 0xDFFF))"

section \<open>Backend calls and the services over them\<close>

text \<open>
  The values that cross the call boundary, the commands the services send, and what
  a rejected promise carries: the value the backend rejected with, or an \<open>Error\<close> a
  service built around it.
\<close>

datatype jsval = JNull | JBool bool | JStr jsstring | JList "jsstring list"

fun truthy :: "jsval \<Rightarrow> bool" where
  "truthy JNull = False"
| "truthy (JBool b) = b"
| "truthy (JStr s) = (s \<noteq> [])"
| "truthy (JList xs) = True"

datatype command =
    enable_system_tray
  | disable_system_tray
  | minimize_to_tray
  | restore_from_tray
  | is_system_tray_enabled
  | save_system_tray_state bool
  | get_system_tray_state
  | list_backups
  | backup_and_restart_antigravity
  | is_antigravity_running
  | resolve_antigravity_path
  | save_antigravity_path jsval
  | open_dialog

datatype rejection =
    Rejected jsval
  | SaveSystemTrayStateFailed rejection
  | NoBackupList
  | GetBackupListFailed rejection
  | BackupAndRestartFailed rejection

datatype status_message =
    BackendText jsval
  | EnableSystemTrayFailed rejection
  | DisableSystemTrayFailed rejection

record SystemTrayStatus =
  enabled :: bool
  status_message :: status_message

text \<open>The backend is any transition function on a state of its own: a command is
  answered with a value (\<open>Inr\<close>) or rejected with one (\<open>Inl\<close>). An \<open>async\<close> function
  of a service takes the backend and its state and returns how its promise settles,
  \<open>Inl\<close> for a rejection, with the backend's state after the calls it made.\<close>

type_synonym 's backend = "command \<Rightarrow> 's \<Rightarrow> (jsval + jsval) \<times> 's"

definition invoke :: "'s backend \<Rightarrow> command \<Rightarrow> 's \<Rightarrow> (rejection + jsval) \<times> 's" where
  "invoke backend cmd s =
     (case backend cmd s of
        (Inl v, s') \<Rightarrow> (Inl (Rejected v), s')
      | (Inr v, s') \<Rightarrow> (Inr v, s'))"

subsection \<open>SystemTrayService\<close>

definition enableSystemTray :: "'s backend \<Rightarrow> 's \<Rightarrow> (rejection + SystemTrayStatus) \<times> 's" where
  "enableSystemTray backend s =
     (case invoke backend enable_system_tray s of
        (Inr result, s') \<Rightarrow> (Inr \<lparr>enabled = True, status_message = BackendText result\<rparr>, s')
      | (Inl error, s') \<Rightarrow>
          (Inr \<lparr>enabled = False, status_message = EnableSystemTrayFailed error\<rparr>, s'))"

definition disableSystemTray :: "'s backend \<Rightarrow> 's \<Rightarrow> (rejection + SystemTrayStatus) \<times> 's" where
  "disableSystemTray backend s =
     (case invoke backend disable_system_tray s of
        (Inr result, s') \<Rightarrow> (Inr \<lparr>enabled = False, status_message = BackendText result\<rparr>, s')
      | (Inl error, s') \<Rightarrow>
          (Inr \<lparr>enabled = False, status_message = DisableSystemTrayFailed error\<rparr>, s'))"

definition minimizeToTray :: "'s backend \<Rightarrow> 's \<Rightarrow> (rejection + jsval) \<times> 's" where
  "minimizeToTray backend s = invoke backend minimize_to_tray s"

definition restoreFromTray :: "'s backend \<Rightarrow> 's \<Rightarrow> (rejection + jsval) \<times> 's" where
  "restoreFromTray backend s = invoke backend restore_from_tray s"

definition isSystemTrayEnabled :: "'s backend \<Rightarrow> 's \<Rightarrow> (rejection + jsval) \<times> 's" where
  "isSystemTrayEnabled backend s = invoke backend is_system_tray_enabled s"

definition toggleSystemTray ::
  "'s backend \<Rightarrow> bool \<Rightarrow> 's \<Rightarrow> (rejection + SystemTrayStatus) \<times> 's" where
  "toggleSystemTray backend flag s =
     (if flag then enableSystemTray backend s else disableSystemTray backend s)"

definition saveSystemTrayState :: "'s backend \<Rightarrow> bool \<Rightarrow> 's \<Rightarrow> (rejection + jsval) \<times> 's" where
  "saveSystemTrayState backend flag s =
     (case invoke backend (save_system_tray_state flag) s of
        (Inr result, s') \<Rightarrow> (Inr result, s')
      | (Inl error, s') \<Rightarrow> (Inl (SaveSystemTrayStateFailed error), s'))"

definition getSystemTrayState :: "'s backend \<Rightarrow> 's \<Rightarrow> (rejection + jsval) \<times> 's" where
  "getSystemTrayState backend s =
     (case invoke backend get_system_tray_state s of
        (Inr result, s') \<Rightarrow> (Inr result, s')
      | (Inl error, s') \<Rightarrow> (Inr (JBool True), s'))"

definition enableSystemTrayWithSave ::
  "'s backend \<Rightarrow> 's \<Rightarrow> (rejection + SystemTrayStatus) \<times> 's" where
  "enableSystemTrayWithSave backend s =
     (case enableSystemTray backend s of
        (Inl error, s1) \<Rightarrow>
          (Inr \<lparr>enabled = False, status_message = EnableSystemTrayFailed error\<rparr>, s1)
      | (Inr status, s1) \<Rightarrow>
          (if enabled status then
             (case saveSystemTrayState backend True s1 of
                (Inl error, s2) \<Rightarrow>
                  (Inr \<lparr>enabled = False, status_message = EnableSystemTrayFailed error\<rparr>, s2)
              | (Inr _, s2) \<Rightarrow> (Inr status, s2))
           else (Inr status, s1)))"

definition disableSystemTrayWithSave ::
  "'s backend \<Rightarrow> 's \<Rightarrow> (rejection + SystemTrayStatus) \<times> 's" where
  "disableSystemTrayWithSave backend s =
     (case disableSystemTray backend s of
        (Inl error, s1) \<Rightarrow>
          (Inr \<lparr>enabled = False, status_message = DisableSystemTrayFailed error\<rparr>, s1)
      | (Inr status, s1) \<Rightarrow>
          (if \<not> enabled status then
             (case saveSystemTrayState backend False s1 of
                (Inl error, s2) \<Rightarrow>
                  (Inr \<lparr>enabled = False, status_message = DisableSystemTrayFailed error\<rparr>, s2)
              | (Inr _, s2) \<Rightarrow> (Inr status, s2))
           else (Inr status, s1)))"

subsection \<open>AntigravityService\<close>

text \<open>The status callback \<open>onStatusUpdate(message, isError)\<close> belongs to the caller;
  it is taken not to throw, and a run of a service function returns the updates it
  sent, in order. The file dialog \<open>open\<close> of the shell is one more call that is
  answered or rejected, the command \<open>open_dialog\<close>.\<close>

datatype status_text =
    ClosingProcess
  | ResultText jsval
  | ProcessNotRunning
  | PathNotFound
  | NoFileSelected
  | PathUpdated
  | PathCheckFailed rejection

type_synonym status_update = "status_text \<times> bool"

definition backupAndRestartAntigravity ::
  "'s backend \<Rightarrow> 's \<Rightarrow> (rejection + unit) \<times> 's \<times> status_update list" where
  "backupAndRestartAntigravity backend s =
     (case invoke backend backup_and_restart_antigravity s of
        (Inr result, s') \<Rightarrow>
          (Inr (), s', [(ClosingProcess, False), (ResultText result, False)])
      | (Inl error, s') \<Rightarrow>
          (Inl (BackupAndRestartFailed error), s', [(ClosingProcess, False)]))"

fun isArray :: "jsval \<Rightarrow> bool" where
  "isArray (JList xs) = True"
| "isArray _ = False"

definition ensureAntigravityPath ::
  "bool \<Rightarrow> 's backend \<Rightarrow> 's \<Rightarrow> (rejection + bool) \<times> 's \<times> status_update list" where
  "ensureAntigravityPath isWindows backend s =
     (if \<not> isWindows then (Inr True, s, [])
      else
        (case invoke backend is_antigravity_running s of
           (Inl error, s1) \<Rightarrow> (Inr False, s1, [(PathCheckFailed error, True)])
         | (Inr running, s1) \<Rightarrow>
             (if \<not> truthy running then (Inr False, s1, [(ProcessNotRunning, True)])
              else
                (case invoke backend resolve_antigravity_path s1 of
                   (Inl error, s2) \<Rightarrow> (Inr False, s2, [(PathCheckFailed error, True)])
                 | (Inr resolved, s2) \<Rightarrow>
                     (if truthy resolved then (Inr True, s2, [])
                      else
                        (case invoke backend open_dialog s2 of
                           (Inl error, s3) \<Rightarrow>
                             (Inr False, s3,
                              [(PathNotFound, False), (PathCheckFailed error, True)])
                         | (Inr selected, s3) \<Rightarrow>
                             (if \<not> truthy selected \<or> isArray selected then
                                (Inr False, s3,
                                 [(PathNotFound, False), (NoFileSelected, True)])
                              else
                                (case invoke backend (save_antigravity_path selected) s3 of
                                   (Inl error, s4) \<Rightarrow>
                                     (Inr False, s4,
                                      [(PathNotFound, False), (PathCheckFailed error, True)])
                                 | (Inr _, s4) \<Rightarrow>
                                     (Inr True, s4,
                                      [(PathNotFound, False), (PathUpdated, False)])))))))))"

text \<open>The \<open>throw\<close> for a falsy list happens inside the \<open>try\<close> block, so the \<open>catch\<close>
  wraps it like a rejection of the backend.\<close>

definition getBackupList :: "'s backend \<Rightarrow> 's \<Rightarrow> (rejection + jsval) \<times> 's" where
  "getBackupList backend s =
     (case invoke backend list_backups s of
        (Inr backupList, s') \<Rightarrow>
          (if \<not> truthy backupList then (Inl (GetBackupListFailed NoBackupList), s')
           else (Inr backupList, s'))
      | (Inl error, s') \<Rightarrow> (Inl (GetBackupListFailed error), s'))"

subsection \<open>Concrete backends\<close>

text \<open>A backend that records the commands it receives and rejects exactly those in a
  given list, and the answer it gives otherwise.\<close>

definition ok_text :: jsval where
  "ok_text = JStr (js ''ok'')"

definition failure_text :: jsval where
  "failure_text = JStr (js ''backend failure'')"

definition logging_backend :: "command list \<Rightarrow> command list backend" where
  "logging_backend failing cmd log =
     (if cmd \<in> set failing then (Inl failure_text, log @ [cmd])
      else (Inr ok_text, log @ [cmd]))"

text \<open>One that rejects every command, one that rejects only the writes of the tray
  state, and one that answers every command with a given value; each records the
  commands it receives.\<close>

definition rejecting_backend :: "command list backend" where
  "rejecting_backend cmd log = (Inl failure_text, log @ [cmd])"

definition save_failing_backend :: "command list backend" where
  "save_failing_backend =
     logging_backend [save_system_tray_state True, save_system_tray_state False]"

definition answering_backend :: "jsval \<Rightarrow> command list backend" where
  "answering_backend v cmd log = (Inr v, log @ [cmd])"

section \<open>Properties of the masking utility\<close>

lemma stars_loop_replicate:
  "stars_loop i n stars = stars @ replicate (nat (n - i)) STAR"
proof (induction i n stars rule: stars_loop.induct)
  case (1 i n stars)
  show ?case
  proof (cases "i < n")
    case True
    then have "nat (n - i) = Suc (nat (n - (i + 1)))" by simp
    with True "1" show ?thesis
      by (subst stars_loop.simps) (simp add: replicate_append_same)
  next
    case False
    then show ?thesis by (subst stars_loop.simps) simp
  qed
qed

lemma lastIndexOf_notin: "c \<notin> set s \<Longrightarrow> lastIndexOf s c = -1"
  by (induction s) (auto simp: Let_def)

lemma lastIndexOf_append: "c \<notin> set d \<Longrightarrow> lastIndexOf (l @ c # d) c = int (length l)"
  by (induction l) (auto simp: Let_def lastIndexOf_notin)

text \<open>What \<open>maskUsername\<close> does to a string cut at its last \<open>@\<close>.\<close>

lemma maskUsername_split:
  assumes "AT \<notin> set d"
  shows "maskUsername (l @ AT # d) =
     (if l = [] \<or> d = [] \<or> length l \<le> 2 then l @ AT # d
      else hd l # replicate (length l - 2) STAR @ last l # AT # d)"
proof -
  have idx: "lastIndexOf (l @ AT # d) AT = int (length l)"
    using assms by (rule lastIndexOf_append)
  have sub: "substring (l @ AT # d) 0 (int (length l)) = l"
    by (simp add: substring_def clamp_index_def)
  have subf: "substring_from (l @ AT # d) (int (length l)) = AT # d"
    by (simp add: substring_from_def clamp_index_def)
  show ?thesis
  proof (cases "l = [] \<or> d = [] \<or> length l \<le> 2")
    case True
    then show ?thesis
      by (auto simp: maskUsername_def idx sub subf Let_def)
  next
    case False
    then have len: "2 < length l" and "d \<noteq> []" by auto
    then have c0: "charAt l 0 = [hd l]"
      by (cases l) (auto simp: charAt_def)
    from len have cl: "charAt l (int (length l) - 1) = [last l]"
      by (cases l rule: rev_cases) (auto simp: charAt_def nth_append)
    from len have st: "stars_loop 0 (int (length l) - 2) [] = replicate (length l - 2) STAR"
      by (simp add: stars_loop_replicate nat_diff_distrib')
    from False show ?thesis
      by (simp add: maskUsername_def idx sub subf Let_def c0 cl st)
  qed
qed

lemma maskUsername_no_at: "AT \<notin> set s \<Longrightarrow> maskUsername s = s"
  by (simp add: maskUsername_def lastIndexOf_notin Let_def)

lemma maskUsername_cases:
  "maskUsername s = s \<or>
   (\<exists>l d. s = l @ AT # d \<and> AT \<notin> set d \<and> d \<noteq> [] \<and> 2 < length l \<and>
      maskUsername s = hd l # replicate (length l - 2) STAR @ last l # AT # d)"
proof (cases "AT \<in> set s")
  case False
  then show ?thesis by (simp add: maskUsername_no_at)
next
  case True
  then obtain l d where s: "s = l @ AT # d" and d: "AT \<notin> set d"
    by (meson split_list_last)
  show ?thesis
  proof (cases "l = [] \<or> d = [] \<or> length l \<le> 2")
    case True
    then show ?thesis unfolding s using maskUsername_split[OF d, of l] by simp
  next
    case False
    then have "maskUsername s = hd l # replicate (length l - 2) STAR @ last l # AT # d"
      unfolding s using maskUsername_split[OF d, of l] by simp
    with False s d have "s = l @ AT # d \<and> AT \<notin> set d \<and> d \<noteq> [] \<and> 2 < length l \<and>
      maskUsername s = hd l # replicate (length l - 2) STAR @ last l # AT # d"
      by simp
    then show ?thesis by blast
  qed
qed

lemma maskBackupFilename_eq: "maskBackupFilename s = maskUsername s"
  by (simp add: maskBackupFilename_def maskUsername_def)

text \<open>
  Claim C2. The claim: when the local part, the characters before the last \<open>@\<close>, has
  exactly two characters, \<open>maskUsername\<close> returns its first character, a star and the
  domain part, so that \<open>ab@b.com\<close> becomes \<open>a*@b.com\<close>. The code tests
  \<open>localPart.length <= 2\<close> before \<open>localPart.length === 2\<close>, so the second branch is
  never taken: \<open>ab@b.com\<close> comes back unchanged.
\<close>

theorem maskUsername_two_char_local:
  "maskUsername (js ''ab@b.com'') = js ''ab@b.com'' \<and>
   maskUsername (js ''ab@b.com'') \<noteq> js ''a*@b.com''"
  by (simp add: maskUsername_def js_def Let_def substring_def substring_from_def
        clamp_index_def)

text \<open>The same for every local part of two characters.\<close>

lemma maskUsername_two_char_local_general:
  "AT \<notin> set d \<Longrightarrow> maskUsername ([a, b] @ AT # d) = [a, b] @ AT # d"
  using maskUsername_split [of d "[a, b]"] by simp

text \<open>
  Claim C7. Let the input be cut at its last \<open>@\<close>, so that the domain part after it
  holds no \<open>@\<close>. When the local part has more than two characters and the domain part
  after the \<open>@\<close> is not empty, \<open>maskUsername\<close> returns the first local character,
  (local length - 2) stars, the last local character, and the domain part from the
  \<open>@\<close> on. An input with no \<open>@\<close>, or whose last \<open>@\<close> is its first or its final
  character, is returned unchanged.
\<close>

theorem maskUsername_long_local_or_invalid:
  "(AT \<notin> set domain \<and> domain \<noteq> [] \<and> 2 < length local \<longrightarrow>
      maskUsername (local @ AT # domain) =
        hd local # replicate (length local - 2) STAR @ last local # AT # domain) \<and>
   (AT \<notin> set email \<longrightarrow> maskUsername email = email) \<and>
   (AT \<notin> set rest \<longrightarrow> maskUsername (AT # rest) = AT # rest) \<and>
   maskUsername (local @ [AT]) = local @ [AT]"
  using maskUsername_split [of domain local] maskUsername_split [of rest "[]"]
    maskUsername_split [of "[]" local] maskUsername_no_at [of email]
  by auto

theorem maskUsername_long_local_or_invalid_witness:
  "AT \<notin> set (js ''x.com'') \<and> js ''x.com'' \<noteq> [] \<and> 2 < length (js ''abcd'') \<and>
   maskUsername (js ''abcd@x.com'') = js ''a**d@x.com'' \<and>
   AT \<notin> set (js ''no-at-sign'') \<and> maskUsername (js ''no-at-sign'') = js ''no-at-sign'' \<and>
   AT \<notin> set (js ''b.com'') \<and> maskUsername (js ''@b.com'') = js ''@b.com'' \<and>
   maskUsername (js ''abc@'') = js ''abc@''"
  using maskUsername_long_local_or_invalid
    [of "js ''x.com''" "js ''abcd''" "js ''no-at-sign''" "js ''b.com''"]
    maskUsername_long_local_or_invalid [of "[]" "js ''abc''" "[]" "[]"]
  by (simp add: js_def)

text \<open>
  Claim C10. \<open>maskUsername\<close> keeps the length of its input, leaves the last \<open>@\<close>
  where it was and the substring from there on as it was, and masking twice is
  masking once.
\<close>

theorem maskUsername_length_suffix_idempotent:
  "length (maskUsername s) = length s \<and>
   lastIndexOf (maskUsername s) AT = lastIndexOf s AT \<and>
   substring_from (maskUsername s) (lastIndexOf s AT) = substring_from s (lastIndexOf s AT) \<and>
   maskUsername (maskUsername s) = maskUsername s"
proof -
  consider (same) "maskUsername s = s"
    | (masked) l d where "s = l @ AT # d" "AT \<notin> set d" "d \<noteq> []" "2 < length l"
        "maskUsername s = hd l # replicate (length l - 2) STAR @ last l # AT # d"
    using maskUsername_cases [of s] by blast
  then show ?thesis
  proof cases
    case same
    then show ?thesis by simp
  next
    case masked
    let ?m = "hd l # replicate (length l - 2) STAR @ [last l]"
    let ?s = "l @ AT # d"
    have lm: "length ?m = length l" using masked by simp
    have m: "maskUsername ?s = ?m @ AT # d"
      using masked(1,5) by simp
    have mm: "maskUsername (?m @ AT # d) = ?m @ AT # d"
      using maskUsername_split [OF masked(2), of ?m] masked(3,4) lm by simp
    have idem: "maskUsername (maskUsername ?s) = maskUsername ?s"
      by (simp only: m mm)
    have i1: "lastIndexOf ?s AT = int (length l)"
      using masked(2) by (rule lastIndexOf_append)
    have "lastIndexOf (?m @ AT # d) AT = int (length ?m)"
      using masked(2) by (rule lastIndexOf_append)
    then have i2: "lastIndexOf (maskUsername ?s) AT = int (length l)"
      by (simp only: m lm)
    have "length (?m @ AT # d) = length ?s"
      using lm by simp
    then have len: "length (maskUsername ?s) = length ?s"
      by (simp only: m)
    have d1: "substring_from (m @ r) (int (length m)) = r" for m r :: jsstring
      by (simp add: substring_from_def clamp_index_def)
    have "substring_from (?m @ AT # d) (int (length l)) = substring_from ?s (int (length l))"
      using d1 [of ?m "AT # d"] d1 [of l "AT # d"] by (simp only: lm)
    then have sub:
      "substring_from (maskUsername ?s) (int (length l)) = substring_from ?s (int (length l))"
      by (simp only: m)
    from idem i1 i2 len sub show ?thesis
      unfolding masked(1) by (simp only:)
  qed
qed

section \<open>Properties of the password validation\<close>

text \<open>
  Claim C6. \<open>validatePassword(p).isValid\<close> is false exactly when \<open>p\<close> is empty or has
  fewer than four characters, and true for every \<open>p\<close> of at least four.
\<close>

theorem validatePassword_isValid:
  "(isValid (validatePassword p) = False) = (p = [] \<or> length p < 4) \<and>
   isValid (validatePassword p) = (4 \<le> length p)"
  by (auto simp: validatePassword_def)

section \<open>Properties of the tray service and the backup list\<close>

lemma invoke_logging:
  "invoke (logging_backend failing) cmd log =
     (if cmd \<in> set failing then (Inl (Rejected failure_text), log @ [cmd])
      else (Inr ok_text, log @ [cmd]))"
  by (simp add: invoke_def logging_backend_def)

lemma never_rejects:
  "\<not> isl (fst (enableSystemTray backend s))"
  "\<not> isl (fst (disableSystemTray backend s))"
  "\<not> isl (fst (toggleSystemTray backend flag s))"
  "\<not> isl (fst (getSystemTrayState backend s))"
  "\<not> isl (fst (enableSystemTrayWithSave backend s))"
  "\<not> isl (fst (disableSystemTrayWithSave backend s))"
  "\<not> isl (fst (ensureAntigravityPath isWindows backend s))"
  by (auto simp: enableSystemTray_def disableSystemTray_def toggleSystemTray_def
      getSystemTrayState_def enableSystemTrayWithSave_def disableSystemTrayWithSave_def
      saveSystemTrayState_def ensureAntigravityPath_def
      split: prod.splits sum.splits)

text \<open>
  Claim C3, as stated: every user-facing operation catches failures at its own
  boundary, and no rejection of a backend call reaches the caller. It fails for
  \<open>minimizeToTray\<close>, which only awaits the backend call: with a backend that rejects
  \<open>minimize_to_tray\<close> the promise of \<open>minimizeToTray\<close> is rejected with the backend's
  value.
\<close>

theorem minimizeToTray_rejection_escapes:
  "minimizeToTray (logging_backend [minimize_to_tray]) [] =
     (Inl (Rejected failure_text), [minimize_to_tray])"
  by (simp add: minimizeToTray_def invoke_logging)

text \<open>
  Claim C3, amended. For every backend: \<open>enableSystemTray\<close>, \<open>disableSystemTray\<close>,
  \<open>toggleSystemTray\<close>, \<open>getSystemTrayState\<close>, \<open>enableSystemTrayWithSave\<close>,
  \<open>disableSystemTrayWithSave\<close> and \<open>ensureAntigravityPath\<close> never reject;
  \<open>minimizeToTray\<close>, \<open>restoreFromTray\<close> and \<open>isSystemTrayEnabled\<close> reject with the
  backend's value when their backend call rejects; \<open>saveSystemTrayState\<close>,
  \<open>getBackupList\<close> and \<open>backupAndRestartAntigravity\<close> then reject with a new
  \<open>Error\<close> built around it.
\<close>

theorem service_rejections:
  "\<not> isl (fst (enableSystemTray backend s)) \<and>
   \<not> isl (fst (disableSystemTray backend s)) \<and>
   \<not> isl (fst (toggleSystemTray backend flag s)) \<and>
   \<not> isl (fst (getSystemTrayState backend s)) \<and>
   \<not> isl (fst (enableSystemTrayWithSave backend s)) \<and>
   \<not> isl (fst (disableSystemTrayWithSave backend s)) \<and>
   \<not> isl (fst (ensureAntigravityPath isWindows backend s)) \<and>
   (fst (backend minimize_to_tray s) = Inl v \<longrightarrow>
      fst (minimizeToTray backend s) = Inl (Rejected v)) \<and>
   (fst (backend restore_from_tray s) = Inl v \<longrightarrow>
      fst (restoreFromTray backend s) = Inl (Rejected v)) \<and>
   (fst (backend is_system_tray_enabled s) = Inl v \<longrightarrow>
      fst (isSystemTrayEnabled backend s) = Inl (Rejected v)) \<and>
   (fst (backend (save_system_tray_state flag) s) = Inl v \<longrightarrow>
      fst (saveSystemTrayState backend flag s) = Inl (SaveSystemTrayStateFailed (Rejected v))) \<and>
   (fst (backend list_backups s) = Inl v \<longrightarrow>
      fst (getBackupList backend s) = Inl (GetBackupListFailed (Rejected v))) \<and>
   (fst (backend backup_and_restart_antigravity s) = Inl v \<longrightarrow>
      fst (backupAndRestartAntigravity backend s) = Inl (BackupAndRestartFailed (Rejected v)))"
  by (auto simp: never_rejects minimizeToTray_def restoreFromTray_def isSystemTrayEnabled_def
      saveSystemTrayState_def getBackupList_def backupAndRestartAntigravity_def invoke_def
      split: prod.splits sum.splits)

theorem service_rejections_witness:
  "fst (rejecting_backend minimize_to_tray []) = Inl failure_text \<and>
   fst (minimizeToTray rejecting_backend []) = Inl (Rejected failure_text) \<and>
   fst (rejecting_backend restore_from_tray []) = Inl failure_text \<and>
   fst (restoreFromTray rejecting_backend []) = Inl (Rejected failure_text) \<and>
   fst (rejecting_backend is_system_tray_enabled []) = Inl failure_text \<and>
   fst (isSystemTrayEnabled rejecting_backend []) = Inl (Rejected failure_text) \<and>
   fst (rejecting_backend (save_system_tray_state True) []) = Inl failure_text \<and>
   fst (saveSystemTrayState rejecting_backend True []) =
     Inl (SaveSystemTrayStateFailed (Rejected failure_text)) \<and>
   fst (rejecting_backend list_backups []) = Inl failure_text \<and>
   fst (getBackupList rejecting_backend []) = Inl (GetBackupListFailed (Rejected failure_text)) \<and>
   fst (rejecting_backend backup_and_restart_antigravity []) = Inl failure_text \<and>
   fst (backupAndRestartAntigravity rejecting_backend []) =
     Inl (BackupAndRestartFailed (Rejected failure_text)) \<and>
   \<not> isl (fst (enableSystemTrayWithSave rejecting_backend [])) \<and>
   \<not> isl (fst (ensureAntigravityPath True rejecting_backend []))"
  using service_rejections [of rejecting_backend "[]" True True failure_text]
  by (simp add: rejecting_backend_def)

text \<open>What \<open>ensureAntigravityPath\<close> returns on Windows when every call is rejected:
  \<open>false\<close>, after one call and one error update.\<close>

lemma ensureAntigravityPath_rejecting:
  "ensureAntigravityPath True rejecting_backend [] =
     (Inr False, [is_antigravity_running],
      [(PathCheckFailed (Rejected failure_text), True)])"
  by (simp add: ensureAntigravityPath_def invoke_def rejecting_backend_def)

text \<open>
  Claim C4, as stated: when the toggle succeeds and the write of the state fails, the
  status returned by \<open>enableSystemTrayWithSave\<close> still has \<open>enabled == true\<close>. With a
  backend that accepts \<open>enable_system_tray\<close> and rejects \<open>save_system_tray_state\<close>,
  the status has \<open>enabled == false\<close> and the failure message, after those two calls.
\<close>

theorem enableSystemTrayWithSave_save_failure:
  "enableSystemTrayWithSave (logging_backend [save_system_tray_state True]) [] =
     (Inr \<lparr>enabled = False,
           status_message =
             EnableSystemTrayFailed (SaveSystemTrayStateFailed (Rejected failure_text))\<rparr>,
      [enable_system_tray, save_system_tray_state True])"
  by (simp add: enableSystemTrayWithSave_def enableSystemTray_def saveSystemTrayState_def
        invoke_logging)

text \<open>
  Claim C4, amended. For every backend, when the toggle call is answered and the
  following \<open>save_system_tray_state\<close> call is rejected, \<open>enableSystemTrayWithSave\<close>
  and \<open>disableSystemTrayWithSave\<close> do not reject and make no further backend call
  (the backend is left in the state after the rejected write, so the toggle is not
  rolled back); the status they return has \<open>enabled == false\<close> and the failure
  message built around the write's error, for enable as for disable.
\<close>

theorem with_save_persistence_failure:
  "(backend enable_system_tray s = (Inr r, s1) \<and>
    backend (save_system_tray_state True) s1 = (Inl v, s2) \<longrightarrow>
      enableSystemTrayWithSave backend s =
        (Inr \<lparr>enabled = False,
              status_message = EnableSystemTrayFailed (SaveSystemTrayStateFailed (Rejected v))\<rparr>,
         s2)) \<and>
   (backend disable_system_tray s = (Inr r, s1) \<and>
    backend (save_system_tray_state False) s1 = (Inl v, s2) \<longrightarrow>
      disableSystemTrayWithSave backend s =
        (Inr \<lparr>enabled = False,
              status_message = DisableSystemTrayFailed (SaveSystemTrayStateFailed (Rejected v))\<rparr>,
         s2))"
  by (simp add: enableSystemTrayWithSave_def enableSystemTray_def saveSystemTrayState_def
        disableSystemTrayWithSave_def disableSystemTray_def invoke_def)

theorem with_save_persistence_failure_witness:
  "save_failing_backend enable_system_tray [] = (Inr ok_text, [enable_system_tray]) \<and>
   save_failing_backend (save_system_tray_state True) [enable_system_tray] =
     (Inl failure_text, [enable_system_tray, save_system_tray_state True]) \<and>
   enableSystemTrayWithSave save_failing_backend [] =
     (Inr \<lparr>enabled = False,
           status_message =
             EnableSystemTrayFailed (SaveSystemTrayStateFailed (Rejected failure_text))\<rparr>,
      [enable_system_tray, save_system_tray_state True]) \<and>
   save_failing_backend disable_system_tray [] = (Inr ok_text, [disable_system_tray]) \<and>
   save_failing_backend (save_system_tray_state False) [disable_system_tray] =
     (Inl failure_text, [disable_system_tray, save_system_tray_state False]) \<and>
   disableSystemTrayWithSave save_failing_backend [] =
     (Inr \<lparr>enabled = False,
           status_message =
             DisableSystemTrayFailed (SaveSystemTrayStateFailed (Rejected failure_text))\<rparr>,
      [disable_system_tray, save_system_tray_state False])"
  using with_save_persistence_failure
    [of save_failing_backend "[]" ok_text "[enable_system_tray]" failure_text
       "[enable_system_tray, save_system_tray_state True]"]
    with_save_persistence_failure
    [of save_failing_backend "[]" ok_text "[disable_system_tray]" failure_text
       "[disable_system_tray, save_system_tray_state False]"]
  by (simp add: save_failing_backend_def logging_backend_def)

text \<open>
  Claim C8. When the backend rejects \<open>get_system_tray_state\<close>, \<open>getSystemTrayState\<close>
  resolves to \<open>true\<close>; when the backend answers, it resolves to the answer unchanged.
\<close>

theorem getSystemTrayState_default:
  "(backend get_system_tray_state s = (Inl v, s') \<longrightarrow>
      getSystemTrayState backend s = (Inr (JBool True), s')) \<and>
   (backend get_system_tray_state s = (Inr b, s') \<longrightarrow>
      getSystemTrayState backend s = (Inr b, s'))"
  by (simp add: getSystemTrayState_def invoke_def)

theorem getSystemTrayState_default_witness:
  "rejecting_backend get_system_tray_state [] = (Inl failure_text, [get_system_tray_state]) \<and>
   getSystemTrayState rejecting_backend [] = (Inr (JBool True), [get_system_tray_state]) \<and>
   answering_backend (JBool False) get_system_tray_state [] =
     (Inr (JBool False), [get_system_tray_state]) \<and>
   getSystemTrayState (answering_backend (JBool False)) [] =
     (Inr (JBool False), [get_system_tray_state])"
  using getSystemTrayState_default
    [of rejecting_backend "[]" failure_text "[get_system_tray_state]" ok_text]
    getSystemTrayState_default
    [of "answering_backend (JBool False)" "[]" failure_text "[get_system_tray_state]"
       "JBool False"]
  by (simp add: rejecting_backend_def answering_backend_def)

section \<open>Properties of the encryption provider\<close>

subsection \<open>What the loops compute\<close>

lemma foldl_append_upt:
  "foldl (\<lambda>acc i. acc @ f i) a [0..<n] = a @ concat (map f [0..<n])"
  by (induction n) simp_all

lemma xor_units:
  "ToUint16 (js_xor (Num (uint (a :: unit16))) (Num (uint (b :: unit16)))) = a XOR b"
  apply (simp add: ToUint16_def js_xor_def ToInt32_def)
  apply (rule bit_word_eqI)
  apply (simp add: bit_simps)
  done

lemma xor_unit_NaN:
  "ToUint16 (js_xor (Num (uint (a :: unit16))) NaN) = a"
  apply (simp add: ToUint16_def js_xor_def ToInt32_def)
  apply (rule bit_word_eqI)
  apply (simp add: bit_simps)
  done

lemma xor_loop_map:
  "xor_loop data password = map (\<lambda>i. data ! i XOR key_unit password i) [0..<length data]"
proof -
  have step: "fromCharCode (js_xor (charCodeAt data (Num (int i)))
          (charCodeAt password (js_mod i (length password)))) = [data ! i XOR key_unit password i]"
    if "i < length data" for i
  proof (cases "password = []")
    case True
    with that show ?thesis
      by (simp add: fromCharCode_def charCodeAt_def js_mod_def key_unit_def xor_unit_NaN)
  next
    case False
    then have "i mod length password < length password" by simp
    with that False show ?thesis
      by (simp add: fromCharCode_def charCodeAt_def js_mod_def key_unit_def xor_units)
  qed
  have "concat (map (\<lambda>i. fromCharCode (js_xor (charCodeAt data (Num (int i)))
          (charCodeAt password (js_mod i (length password))))) [0..<length data])
      = concat (map (\<lambda>i. [data ! i XOR key_unit password i]) [0..<length data])"
    by (rule arg_cong [where f = concat], rule map_cong) (simp_all add: step)
  then show ?thesis
    by (simp add: xor_loop_def foldl_append_upt concat_map_singleton)
qed

lemma length_xor_loop: "length (xor_loop data password) = length data"
  by (simp add: xor_loop_map)

lemma xor_loop_involution: "xor_loop (xor_loop data password) password = data"
proof -
  have "xor_loop (xor_loop data password) password
      = map (\<lambda>i. xor_loop data password ! i XOR key_unit password i) [0..<length data]"
    by (simp add: xor_loop_map [of "xor_loop data password"] length_xor_loop)
  also have "\<dots> = map (\<lambda>i. data ! i) [0..<length data]"
    by (rule map_cong) (simp_all add: xor_loop_map xor.assoc)
  also have "\<dots> = data"
    by (rule map_nth)
  finally show ?thesis .
qed

lemma xor_loop_empty_password: "xor_loop data [] = data"
proof -
  have "xor_loop data [] = map (\<lambda>i. data ! i) [0..<length data]"
    by (simp add: xor_loop_map key_unit_def)
  then show ?thesis by (simp only: map_nth)
qed

lemma bytes_to_binary_map: "bytes_to_binary data = map ucast data"
proof -
  have "concat (map (\<lambda>i. fromCharCode (Num (uint (data ! i)))) [0..<length data])
      = map (\<lambda>i. ucast (data ! i)) [0..<length data]"
    by (simp add: fromCharCode_def ToUint16_def concat_map_singleton)
  also have "\<dots> = map ucast (map ((!) data) [0..<length data])"
    by simp
  also have "\<dots> = map ucast data"
    by (simp only: map_nth)
  finally show ?thesis
    by (simp add: bytes_to_binary_def foldl_append_upt)
qed

lemma foldl_update_upt:
  "n \<le> length xs \<Longrightarrow>
   foldl (\<lambda>bytes i. bytes[i := f i]) xs [0..<n] = map f [0..<n] @ drop n xs"
proof (induction n)
  case 0
  then show ?case by simp
next
  case (Suc n)
  then have "drop n xs = xs ! n # drop (Suc n) xs"
    by (simp add: Cons_nth_drop_Suc)
  then have "(map f [0..<n] @ drop n xs)[n := f n] = map f [0..<n] @ f n # drop (Suc n) xs"
    by (simp add: list_update_append)
  with Suc show ?case by simp
qed

lemma binary_to_bytes_map: "binary_to_bytes binary = map ucast binary"
proof -
  have "map (\<lambda>i. ToUint8 (charCodeAt binary (Num (int i)))) [0..<length binary]
      = map (\<lambda>i. ucast (binary ! i)) [0..<length binary]"
    by (rule map_cong) (simp_all add: ToUint8_def charCodeAt_def)
  also have "\<dots> = map ucast (map ((!) binary) [0..<length binary])"
    by simp
  also have "\<dots> = map ucast binary"
    by (simp only: map_nth)
  finally show ?thesis
    by (simp add: binary_to_bytes_def foldl_update_upt)
qed

lemma ucast_byte_le: "(ucast (b :: byte) :: unit16) \<le> 0xFF"
proof -
  have "unat b < 2 ^ 8" using unsigned_less [of b, where 'a = nat] by simp
  then have "unat (ucast b :: unit16) < 256"
    by (simp add: unsigned_ucast_eq take_bit_nat_eq_self)
  then show ?thesis by (simp add: word_le_nat_alt)
qed

lemma ucast_ucast_byte: "(ucast (ucast (b :: byte) :: unit16) :: byte) = b"
  by (simp add: ucast_up_ucast_id is_up)

lemma btoa_bytes: "btoa (bytes_to_binary data) = Inr (base64_encode data)"
proof -
  have "\<not> (\<exists>u \<in> set (map ucast data :: jsstring). 0xFF < u)"
    using ucast_byte_le by (auto simp: not_less)
  moreover have "map ucast (map ucast data :: jsstring) = data"
    by (simp add: ucast_ucast_byte map_idI)
  ultimately show ?thesis
    by (simp add: btoa_def bytes_to_binary_map del: set_map)
qed

lemma unicodeBase64Encode_eq:
  "unicodeBase64Encode str = Inr (base64_encode (TextEncoder_encode str))"
  by (simp add: unicodeBase64Encode_def btoa_bytes)

lemma encrypt_eq:
  "encrypt data password = Inr (base64_encode (TextEncoder_encode (xor_loop data password)))"
  by (simp add: encrypt_def unicodeBase64Encode_eq)

lemma encrypt_empty_password: "encrypt data [] = unicodeBase64Encode data"
  by (simp add: encrypt_def xor_loop_empty_password)

lemma unicodeBase64Decode_eq:
  "unicodeBase64Decode str =
     (case atob str of
        Inl _ \<Rightarrow> Inl Base64DecodeFailed
      | Inr binary \<Rightarrow> Inr (TextDecoder_decode (map ucast binary)))"
  by (simp add: unicodeBase64Decode_def binary_to_bytes_map split: sum.splits)

lemma decrypt_eq:
  "decrypt encryptedData password =
     (case atob encryptedData of
        Inl _ \<Rightarrow> Inl DecryptFailed
      | Inr binary \<Rightarrow> Inr (xor_loop (TextDecoder_decode (map ucast binary)) password))"
  by (simp add: decrypt_def unicodeBase64Decode_eq split: sum.splits)

subsection \<open>UTF-16: strings and scalar values\<close>

lemma high_unat: "is_high_surrogate u = (0xD800 \<le> unat u \<and> unat u \<le> 0xDBFF)"
  by (simp add: is_high_surrogate_def word_le_nat_alt)

lemma low_unat: "is_low_surrogate u = (0xDC00 \<le> unat u \<and> unat u \<le> 0xDFFF)"
  by (simp add: is_low_surrogate_def word_le_nat_alt)

lemma unat_unit16_less: "unat (u :: unit16) < 0x10000"
  using unsigned_less [of u, where 'a = nat] by simp

lemma utf16_encode_unit:
  "utf16_encode_code_point (unat (u :: unit16)) = [u]"
  using unat_unit16_less [of u] by (simp add: utf16_encode_code_point_def)

lemma utf16_encode_pair:
  assumes "is_high_surrogate u" "is_low_surrogate v"
  shows "utf16_encode_code_point (pair_code_point u v) = [u, v]"
proof -
  from assms have hu: "0xD800 \<le> unat u" "unat u \<le> 0xDBFF" and lv: "0xDC00 \<le> unat v" "unat v \<le> 0xDFFF"
    by (simp_all add: high_unat low_unat)
  define a where "a = unat u - 0xD800"
  define b where "b = unat v - 0xDC00"
  have a: "a < 0x400" "unat u = 0xD800 + a" and b: "b < 0x400" "unat v = 0xDC00 + b"
    using hu lv by (simp_all add: a_def b_def)
  have p: "pair_code_point u v = 0x10000 + a * 0x400 + b"
    by (simp add: pair_code_point_def a_def b_def)
  have "(a * 0x400 + b) div 0x400 = a" "(a * 0x400 + b) mod 0x400 = b"
    using b(1) by simp_all
  then have "utf16_encode_code_point (pair_code_point u v) = [of_nat (unat u), of_nat (unat v)]"
    by (simp add: p utf16_encode_code_point_def a(2) b(2))
  then show ?thesis by simp
qed

lemma pair_code_point_scalar:
  assumes "is_high_surrogate u" "is_low_surrogate v"
  shows "scalar_value (pair_code_point u v)" "0x10000 \<le> pair_code_point u v"
proof -
  from assms have "0xD800 \<le> unat u" "unat u \<le> 0xDBFF" "0xDC00 \<le> unat v" "unat v \<le> 0xDFFF"
    by (simp_all add: high_unat low_unat)
  then show "scalar_value (pair_code_point u v)" "0x10000 \<le> pair_code_point u v"
    by (simp_all add: scalar_value_def pair_code_point_def)
qed

lemma to_scalar_values_unpaired:
  "\<not> (is_high_surrogate u \<and> is_low_surrogate v) \<Longrightarrow>
   to_scalar_values (u # v # vs) =
     (if is_high_surrogate u \<or> is_low_surrogate u then 0xFFFD else unat u)
       # to_scalar_values (v # vs)"
  by (subst to_scalar_values.simps) (rule if_not_P)

lemma unit_scalar:
  "\<not> is_high_surrogate u \<Longrightarrow> \<not> is_low_surrogate u \<Longrightarrow> scalar_value (unat u)"
  using unat_unit16_less [of u] unfolding scalar_value_def high_unat low_unat by linarith

lemma replacement_scalar: "scalar_value 0xFFFD"
  by (simp add: scalar_value_def)

lemma to_scalar_values_scalar: "\<forall>cp \<in> set (to_scalar_values s). scalar_value cp"
proof (induction s rule: to_scalar_values.induct)
  case 1
  then show ?case by simp
next
  case (2 u)
  then show ?case
    by (simp add: unit_scalar replacement_scalar)
next
  case (3 u v vs)
  show ?case
  proof (cases "is_high_surrogate u \<and> is_low_surrogate v")
    case True
    with 3 show ?thesis by (simp add: pair_code_point_scalar(1))
  next
    case False
    with "3.IH"(2) have "\<forall>cp \<in> set (to_scalar_values (v # vs)). scalar_value cp"
      by blast
    moreover note to_scalar_values_unpaired [OF False]
    ultimately show ?thesis
      by (simp only: set_simps ball_simps) (simp add: unit_scalar replacement_scalar)
  qed
qed

lemma utf16_roundtrip:
  "well_formed s \<Longrightarrow> concat (map utf16_encode_code_point (to_scalar_values s)) = s"
proof (induction s rule: to_scalar_values.induct)
  case 1
  then show ?case by simp
next
  case (2 u)
  then show ?case by (simp add: utf16_encode_unit)
next
  case (3 u v vs)
  show ?case
  proof (cases "is_high_surrogate u \<and> is_low_surrogate v")
    case True
    with 3 have "concat (map utf16_encode_code_point (to_scalar_values vs)) = vs"
      by simp
    with True show ?thesis by (simp add: utf16_encode_pair)
  next
    case False
    with "3.prems" have u: "\<not> is_high_surrogate u" "\<not> is_low_surrogate u"
      and wf: "well_formed (v # vs)"
      by simp_all
    from False wf "3.IH"(2)
    have "concat (map utf16_encode_code_point (to_scalar_values (v # vs))) = v # vs"
      by blast
    with u show ?thesis
      by (simp add: to_scalar_values_unpaired [OF False] utf16_encode_unit)
  qed
qed

lemma unat_bom: "unat (u :: unit16) = 0xFEFF \<Longrightarrow> u = 0xFEFF"
proof -
  assume "unat u = 0xFEFF"
  then have "(of_nat (unat u) :: unit16) = of_nat 0xFEFF" by (simp only:)
  then show ?thesis by simp
qed

lemma to_scalar_values_no_bom:
  assumes "s = [] \<or> hd s \<noteq> 0xFEFF"
  shows "strip_bom (to_scalar_values s) = to_scalar_values s"
proof (cases s rule: to_scalar_values.cases)
  case 1
  then show ?thesis by (simp add: strip_bom_def)
next
  case (2 u)
  with assms have "unat u \<noteq> 0xFEFF" using unat_bom [of u] by auto
  with 2 show ?thesis by (simp add: strip_bom_def)
next
  case (3 u v vs)
  with assms have "unat u \<noteq> 0xFEFF" using unat_bom [of u] by auto
  with 3 show ?thesis
    using pair_code_point_scalar(2) [of u v] by (auto simp: strip_bom_def)
qed

subsection \<open>UTF-8: the decoder inverts the encoder\<close>

lemma unat_byte_of_nat: "n < 256 \<Longrightarrow> unat (of_nat n :: byte) = n"
  by (simp add: unat_of_nat)

lemma dec_ascii:
  "unat b \<le> 0x7F \<Longrightarrow>
   utf8_decoder utf8_initial (b # bs) = unat b # utf8_decoder utf8_initial bs"
  by (subst utf8_decoder.simps) (simp add: utf8_initial_def)

lemma dec_lead:
  "\<not> unat b \<le> 0x7F \<Longrightarrow> utf8_lead (unat b) = Some st \<Longrightarrow>
   utf8_decoder utf8_initial (b # bs) = utf8_decoder st bs"
  by (subst utf8_decoder.simps) (simp add: utf8_initial_def)

lemma dec_cont:
  "bytes_needed st \<noteq> 0 \<Longrightarrow> lower_boundary st \<le> unat b \<Longrightarrow> unat b \<le> upper_boundary st \<Longrightarrow>
   bytes_seen st + 1 \<noteq> bytes_needed st \<Longrightarrow>
   utf8_decoder st (b # bs) =
     utf8_decoder
       (st\<lparr>code_point := code_point st * 0x40 + unat b mod 0x40,
           bytes_seen := bytes_seen st + 1,
           lower_boundary := 0x80, upper_boundary := 0xBF\<rparr>) bs"
  by (subst utf8_decoder.simps) simp

lemma dec_last:
  "bytes_needed st \<noteq> 0 \<Longrightarrow> lower_boundary st \<le> unat b \<Longrightarrow> unat b \<le> upper_boundary st \<Longrightarrow>
   bytes_seen st + 1 = bytes_needed st \<Longrightarrow>
   utf8_decoder st (b # bs) =
     (code_point st * 0x40 + unat b mod 0x40) # utf8_decoder utf8_initial bs"
  by (subst utf8_decoder.simps) simp

lemma utf8_roundtrip1:
  assumes "cp < 0x80"
  shows "utf8_decoder utf8_initial (utf8_encode_code_point cp @ rest) =
         cp # utf8_decoder utf8_initial rest"
proof -
  from assms have "unat (of_nat cp :: byte) = cp" by (simp add: unat_byte_of_nat)
  with assms show ?thesis
    by (simp add: utf8_encode_code_point_def dec_ascii)
qed

lemma mod_of_multiple: "q < m \<Longrightarrow> (k * m + q) mod m = (q::nat)"
  by simp

text \<open>The decoder after a lead byte, on a continuation byte \<open>0x80 + r\<close>.\<close>

lemma dec_cont_byte:
  assumes "r < 0x40" "bytes_needed st \<noteq> 0" "lower_boundary st \<le> 0x80 + r"
    "0x80 + r \<le> upper_boundary st" "bytes_seen st + 1 \<noteq> bytes_needed st"
  shows "utf8_decoder st (of_nat (0x80 + r) # bs) =
     utf8_decoder
       \<lparr>code_point = code_point st * 0x40 + r, bytes_seen = bytes_seen st + 1,
        bytes_needed = bytes_needed st, lower_boundary = 0x80, upper_boundary = 0xBF\<rparr> bs"
proof -
  have u: "unat (of_nat (0x80 + r) :: byte) = 0x80 + r"
    using assms(1) by (simp add: unat_byte_of_nat del: of_nat_add)
  have m: "(0x80 + r) mod 0x40 = r"
    using mod_of_multiple [of r 64 2] assms(1) by simp
  have "utf8_decoder st (of_nat (0x80 + r) # bs) =
     utf8_decoder
       (st\<lparr>code_point := code_point st * 0x40 + unat (of_nat (0x80 + r) :: byte) mod 0x40,
           bytes_seen := bytes_seen st + 1,
           lower_boundary := 0x80, upper_boundary := 0xBF\<rparr>) bs"
  proof (rule dec_cont)
    show "bytes_needed st \<noteq> 0" by fact
    show "lower_boundary st \<le> unat (of_nat (0x80 + r) :: byte)" unfolding u by fact
    show "unat (of_nat (0x80 + r) :: byte) \<le> upper_boundary st" unfolding u by fact
    show "bytes_seen st + 1 \<noteq> bytes_needed st" by fact
  qed
  then show ?thesis
    by (simp only: u m) (cases st, simp)
qed

lemma dec_last_byte:
  assumes "r < 0x40" "bytes_needed st \<noteq> 0" "lower_boundary st \<le> 0x80 + r"
    "0x80 + r \<le> upper_boundary st" "bytes_seen st + 1 = bytes_needed st"
  shows "utf8_decoder st (of_nat (0x80 + r) # bs) =
     (code_point st * 0x40 + r) # utf8_decoder utf8_initial bs"
proof -
  have u: "unat (of_nat (0x80 + r) :: byte) = 0x80 + r"
    using assms(1) by (simp add: unat_byte_of_nat del: of_nat_add)
  have m: "(0x80 + r) mod 0x40 = r"
    using mod_of_multiple [of r 64 2] assms(1) by simp
  have "utf8_decoder st (of_nat (0x80 + r) # bs) =
     (code_point st * 0x40 + unat (of_nat (0x80 + r) :: byte) mod 0x40)
       # utf8_decoder utf8_initial bs"
  proof (rule dec_last)
    show "bytes_needed st \<noteq> 0" by fact
    show "lower_boundary st \<le> unat (of_nat (0x80 + r) :: byte)" unfolding u by fact
    show "unat (of_nat (0x80 + r) :: byte) \<le> upper_boundary st" unfolding u by fact
    show "bytes_seen st + 1 = bytes_needed st" by fact
  qed
  then show ?thesis
    by (simp only: u m)
qed

lemma dec_lead_byte:
  assumes "0x80 \<le> x" "x < 256" "utf8_lead x = Some st"
  shows "utf8_decoder utf8_initial (of_nat x # bs) = utf8_decoder st bs"
proof -
  have u: "unat (of_nat x :: byte) = x"
    using assms(2) by (rule unat_byte_of_nat)
  show ?thesis
  proof (rule dec_lead)
    show "\<not> unat (of_nat x :: byte) \<le> 0x7F" unfolding u using assms(1) by simp
    show "utf8_lead (unat (of_nat x :: byte)) = Some st" unfolding u by fact
  qed
qed

lemma utf8_roundtrip2:
  assumes "0x80 \<le> cp" "cp < 0x800"
  shows "utf8_decoder utf8_initial (utf8_encode_code_point cp @ rest) =
         cp # utf8_decoder utf8_initial rest"
proof -
  define q where "q = cp div 0x40"
  define r where "r = cp mod 0x40"
  have cp: "cp = q * 0x40 + r" and r: "r < 0x40" by (simp_all add: q_def r_def)
  from assms cp r have q: "2 \<le> q" "q < 0x20" by linarith+
  let ?st = "\<lparr>code_point = q, bytes_seen = 0, bytes_needed = 1,
              lower_boundary = 0x80, upper_boundary = 0xBF\<rparr>"
  have enc: "utf8_encode_code_point cp = [of_nat (0xC0 + q), of_nat (0x80 + r)]"
    using assms by (simp add: utf8_encode_code_point_def q_def r_def)
  have "(0xC0 + q) mod 0x20 = q" using mod_of_multiple [of q 32 6] q by simp
  then have lead: "utf8_lead (0xC0 + q) = Some ?st"
    using q by (simp add: utf8_lead_def utf8_initial_def)
  have s1: "utf8_decoder utf8_initial (of_nat (0xC0 + q) # of_nat (0x80 + r) # rest) =
      utf8_decoder ?st (of_nat (0x80 + r) # rest)"
    using q lead by (intro dec_lead_byte) simp_all
  have s2: "utf8_decoder ?st (of_nat (0x80 + r) # rest) =
      (code_point ?st * 0x40 + r) # utf8_decoder utf8_initial rest"
    using r by (intro dec_last_byte) simp_all
  show ?thesis
    unfolding enc append.simps s1 s2 by (simp add: cp)
qed

lemma utf8_roundtrip3:
  assumes "0x800 \<le> cp" "cp < 0x10000" "\<not> (0xD800 \<le> cp \<and> cp \<le> 0xDFFF)"
  shows "utf8_decoder utf8_initial (utf8_encode_code_point cp @ rest) =
         cp # utf8_decoder utf8_initial rest"
proof -
  define n where "n = cp div 0x40"
  define a where "a = n div 0x40"
  define b where "b = n mod 0x40"
  define c where "c = cp mod 0x40"
  have cp: "cp = n * 0x40 + c" and c: "c < 0x40" by (simp_all add: n_def c_def)
  have n: "n = a * 0x40 + b" and b: "b < 0x40" by (simp_all add: a_def b_def)
  from assms cp c n b have a: "a < 0x10" by linarith
  have a0: "0x20 \<le> b" if "a = 0" using that assms cp c n b by linarith
  have ad: "b < 0x20" if "a = 0xD" using that assms cp c n b by linarith
  have d1: "cp div 0x1000 = a"
    by (simp add: a_def n_def div_mult2_eq [symmetric])
  have enc: "utf8_encode_code_point cp =
      [of_nat (0xE0 + a), of_nat (0x80 + b), of_nat (0x80 + c)]"
    using assms by (simp add: utf8_encode_code_point_def d1) (simp add: b_def c_def n_def)
  let ?lo = "if a = 0 then 0xA0 else (0x80::nat)"
  let ?hi = "if a = 0xD then 0x9F else (0xBF::nat)"
  let ?st = "\<lparr>code_point = a, bytes_seen = 0, bytes_needed = 2,
              lower_boundary = ?lo, upper_boundary = ?hi\<rparr>"
  let ?st2 = "\<lparr>code_point = code_point ?st * 0x40 + b, bytes_seen = bytes_seen ?st + 1,
               bytes_needed = bytes_needed ?st, lower_boundary = 0x80, upper_boundary = 0xBF\<rparr>"
  have "(0xE0 + a) mod 0x10 = a" using mod_of_multiple [of a 16 14] a by simp
  then have lead: "utf8_lead (0xE0 + a) = Some ?st"
    using a by (simp add: utf8_lead_def)
  have s1: "utf8_decoder utf8_initial (of_nat (0xE0 + a) # bs) = utf8_decoder ?st bs" for bs
    using a lead by (intro dec_lead_byte) simp_all
  have s2: "utf8_decoder ?st (of_nat (0x80 + b) # bs) = utf8_decoder ?st2 bs" for bs
    using b a0 ad by (intro dec_cont_byte) auto
  have s3: "utf8_decoder ?st2 (of_nat (0x80 + c) # bs) =
      (code_point ?st2 * 0x40 + c) # utf8_decoder utf8_initial bs" for bs
    using c by (intro dec_last_byte) simp_all
  show ?thesis
    unfolding enc append.simps s1 s2 s3 by (simp add: cp n)
qed

lemma utf8_roundtrip4:
  assumes "0x10000 \<le> cp" "cp < 0x110000"
  shows "utf8_decoder utf8_initial (utf8_encode_code_point cp @ rest) =
         cp # utf8_decoder utf8_initial rest"
proof -
  define n where "n = cp div 0x40"
  define m where "m = n div 0x40"
  define a where "a = m div 0x40"
  define b where "b = m mod 0x40"
  define c where "c = n mod 0x40"
  define d where "d = cp mod 0x40"
  have cp: "cp = n * 0x40 + d" and d: "d < 0x40" by (simp_all add: n_def d_def)
  have n: "n = m * 0x40 + c" and c: "c < 0x40" by (simp_all add: m_def c_def)
  have m: "m = a * 0x40 + b" and b: "b < 0x40" by (simp_all add: a_def b_def)
  from assms cp d n c m b have a: "a \<le> 4" by linarith
  have a0: "0x10 \<le> b" if "a = 0" using that assms cp d n c m b by linarith
  have a4: "b < 0x10" if "a = 4" using that assms cp d n c m b by linarith
  have d1: "cp div 0x1000 = m"
    by (simp add: m_def n_def div_mult2_eq [symmetric])
  have d2: "cp div 0x40000 = a"
    by (simp add: a_def m_def n_def div_mult2_eq [symmetric])
  have enc: "utf8_encode_code_point cp =
      [of_nat (0xF0 + a), of_nat (0x80 + b), of_nat (0x80 + c), of_nat (0x80 + d)]"
    using assms by (simp add: utf8_encode_code_point_def d1 d2) (simp add: b_def c_def d_def n_def)
  let ?lo = "if a = 0 then 0x90 else (0x80::nat)"
  let ?hi = "if a = 4 then 0x8F else (0xBF::nat)"
  let ?st = "\<lparr>code_point = a, bytes_seen = 0, bytes_needed = 3,
              lower_boundary = ?lo, upper_boundary = ?hi\<rparr>"
  let ?st2 = "\<lparr>code_point = code_point ?st * 0x40 + b, bytes_seen = bytes_seen ?st + 1,
               bytes_needed = bytes_needed ?st, lower_boundary = 0x80, upper_boundary = 0xBF\<rparr>"
  let ?st3 = "\<lparr>code_point = code_point ?st2 * 0x40 + c, bytes_seen = bytes_seen ?st2 + 1,
               bytes_needed = bytes_needed ?st2, lower_boundary = 0x80, upper_boundary = 0xBF\<rparr>"
  have "(0xF0 + a) mod 0x08 = a" using mod_of_multiple [of a 8 30] a by simp
  then have lead: "utf8_lead (0xF0 + a) = Some ?st"
    using a by (simp add: utf8_lead_def)
  have s1: "utf8_decoder utf8_initial (of_nat (0xF0 + a) # bs) = utf8_decoder ?st bs" for bs
    using a lead by (intro dec_lead_byte) simp_all
  have s2: "utf8_decoder ?st (of_nat (0x80 + b) # bs) = utf8_decoder ?st2 bs" for bs
    using b a0 a4 by (intro dec_cont_byte) auto
  have s3: "utf8_decoder ?st2 (of_nat (0x80 + c) # bs) = utf8_decoder ?st3 bs" for bs
    using c by (intro dec_cont_byte) simp_all
  have s4: "utf8_decoder ?st3 (of_nat (0x80 + d) # bs) =
      (code_point ?st3 * 0x40 + d) # utf8_decoder utf8_initial bs" for bs
    using d by (intro dec_last_byte) simp_all
  show ?thesis
    unfolding enc append.simps s1 s2 s3 s4 by (simp add: cp n m)
qed

lemma utf8_roundtrip_code_point:
  assumes "scalar_value cp"
  shows "utf8_decoder utf8_initial (utf8_encode_code_point cp @ rest) =
         cp # utf8_decoder utf8_initial rest"
proof -
  consider "cp < 0x80" | "0x80 \<le> cp" "cp < 0x800" | "0x800 \<le> cp" "cp < 0x10000"
    | "0x10000 \<le> cp"
    by linarith
  then show ?thesis
  proof cases
    case 1
    then show ?thesis by (rule utf8_roundtrip1)
  next
    case 2
    then show ?thesis by (rule utf8_roundtrip2)
  next
    case 3
    with assms show ?thesis by (intro utf8_roundtrip3) (simp_all add: scalar_value_def)
  next
    case 4
    with assms show ?thesis by (intro utf8_roundtrip4) (simp_all add: scalar_value_def)
  qed
qed

lemma utf8_roundtrip:
  "\<forall>cp \<in> set cps. scalar_value cp \<Longrightarrow>
   utf8_decoder utf8_initial (concat (map utf8_encode_code_point cps)) = cps"
proof (induction cps)
  case Nil
  show ?case by (simp add: utf8_decoder.simps utf8_initial_def)
next
  case (Cons cp cps)
  then show ?case by (simp add: utf8_roundtrip_code_point)
qed

subsection \<open>Base64: \<open>atob\<close> inverts \<open>btoa\<close>\<close>

lemma div_of_multiple: "y < m \<Longrightarrow> (x * m + y) div m = (x::nat)"
  by simp

lemma unat_unit_of_nat: "n < 0x10000 \<Longrightarrow> unat (of_nat n :: unit16) = n"
  by (simp add: unat_of_nat)

lemma b64_char_cases:
  assumes "n < 64"
  obtains "n < 26" "b64_char n = of_nat (0x41 + n)" "unat (b64_char n) = 0x41 + n"
  | "26 \<le> n" "n < 52" "b64_char n = of_nat (0x61 + (n - 26))" "unat (b64_char n) = 0x61 + (n - 26)"
  | "52 \<le> n" "n < 62" "b64_char n = of_nat (0x30 + (n - 52))" "unat (b64_char n) = 0x30 + (n - 52)"
  | "n = 62" "b64_char n = 0x2B" "unat (b64_char n) = 0x2B"
  | "n = 63" "b64_char n = 0x2F" "unat (b64_char n) = 0x2F"
proof -
  consider "n < 26" | "26 \<le> n" "n < 52" | "52 \<le> n" "n < 62" | "n = 62" | "n = 63"
    using assms by linarith
  then show ?thesis
  proof cases
    case 1
    then have "b64_char n = of_nat (0x41 + n)" by (simp add: b64_char_def)
    moreover from 1 have "unat (of_nat (0x41 + n) :: unit16) = 0x41 + n"
      by (intro unat_unit_of_nat) simp
    ultimately show ?thesis using 1 that(1) by simp
  next
    case 2
    then have "b64_char n = of_nat (0x61 + (n - 26))" by (simp add: b64_char_def)
    moreover from 2 have "unat (of_nat (0x61 + (n - 26)) :: unit16) = 0x61 + (n - 26)"
      by (intro unat_unit_of_nat) simp
    ultimately show ?thesis using 2 that(2) by simp
  next
    case 3
    then have "b64_char n = of_nat (0x30 + (n - 52))" by (simp add: b64_char_def)
    moreover from 3 have "unat (of_nat (0x30 + (n - 52)) :: unit16) = 0x30 + (n - 52)"
      by (intro unat_unit_of_nat) simp
    ultimately show ?thesis using 3 that(3) by simp
  next
    case 4
    then show ?thesis using that(4) by (simp add: b64_char_def)
  next
    case 5
    then show ?thesis using that(5) by (simp add: b64_char_def)
  qed
qed

lemma b64_value_unat:
  "b64_value u =
     (if 0x41 \<le> unat u \<and> unat u \<le> 0x5A then Some (unat u - 0x41)
      else if 0x61 \<le> unat u \<and> unat u \<le> 0x7A then Some (unat u - 0x61 + 26)
      else if 0x30 \<le> unat u \<and> unat u \<le> 0x39 then Some (unat u - 0x30 + 52)
      else if unat u = 0x2B then Some 62
      else if unat u = 0x2F then Some 63
      else None)"
  by (simp add: b64_value_def word_le_nat_alt word_unat_eq_iff)

lemma b64_value_char: "n < 64 \<Longrightarrow> b64_value (b64_char n) = Some n"
  by (erule b64_char_cases) (auto simp: b64_value_unat)

lemma whitespace_unat:
  "is_ascii_whitespace u =
     (unat u = 0x09 \<or> unat u = 0x0A \<or> unat u = 0x0C \<or> unat u = 0x0D \<or> unat u = 0x20)"
  by (simp add: is_ascii_whitespace_def word_unat_eq_iff)

lemma b64_char_not_whitespace: "n < 64 \<Longrightarrow> \<not> is_ascii_whitespace (b64_char n)"
  by (erule b64_char_cases) (auto simp: whitespace_unat)

lemma b64_char_not_pad: "n < 64 \<Longrightarrow> b64_char n \<noteq> PAD"
proof
  assume "n < 64" and "b64_char n = PAD"
  then have "unat (b64_char n) = 0x3D" by simp
  with \<open>n < 64\<close> show False by (elim b64_char_cases) simp_all
qed

lemma unat_byte_less: "unat (a :: byte) < 256"
  using unsigned_less [of a, where 'a = nat] by simp

lemma sextet_bounds:
  fixes a b c :: nat
  assumes "a < 256" "b < 256" "c < 256"
  shows "a div 4 < 64" "a mod 4 * 16 < 64" "a mod 4 * 16 + b div 16 < 64"
    "b mod 16 * 4 < 64" "b mod 16 * 4 + c div 64 < 64" "c mod 64 < 64"
proof -
  have m4: "a mod 4 < 4" and m16: "b mod 16 < 16" by simp_all
  from assms have d16: "b div 16 < 16" and d64: "c div 64 < 4" and d4: "a div 4 < 64"
    by linarith+
  show "a div 4 < 64" by (rule d4)
  show "a mod 4 * 16 < 64" using m4 by linarith
  show "a mod 4 * 16 + b div 16 < 64" using m4 d16 by linarith
  show "b mod 16 * 4 < 64" using m16 by linarith
  show "b mod 16 * 4 + c div 64 < 64" using m16 d64 by linarith
  show "c mod 64 < 64" by simp
qed

lemma sextet_bytes:
  fixes a b c :: nat
  assumes "a < 256" "b < 256" "c < 256"
  shows "a div 4 * 4 + (a mod 4 * 16 + b div 16) div 16 = a"
    "(a mod 4 * 16 + b div 16) mod 16 * 16 + (b mod 16 * 4 + c div 64) div 4 = b"
    "(b mod 16 * 4 + c div 64) mod 4 * 64 + c mod 64 = c"
    "a div 4 * 4 + a mod 4 * 16 div 16 = a"
    "(a mod 4 * 16 + b div 16) mod 16 * 16 + b mod 16 * 4 div 4 = b"
proof -
  from assms have d16: "b div 16 < 16" and d64: "c div 64 < 4"
    by linarith+
  have x1: "(a mod 4 * 16 + b div 16) div 16 = a mod 4"
    using d16 by (rule div_of_multiple)
  have x2: "(a mod 4 * 16 + b div 16) mod 16 = b div 16"
    using d16 by (rule mod_of_multiple)
  have x3: "(b mod 16 * 4 + c div 64) div 4 = b mod 16"
    using d64 by (rule div_of_multiple)
  have x4: "(b mod 16 * 4 + c div 64) mod 4 = c div 64"
    using d64 by (rule mod_of_multiple)
  show "a div 4 * 4 + (a mod 4 * 16 + b div 16) div 16 = a"
    unfolding x1 by simp
  show "(a mod 4 * 16 + b div 16) mod 16 * 16 + (b mod 16 * 4 + c div 64) div 4 = b"
    unfolding x2 x3 by simp
  show "(b mod 16 * 4 + c div 64) mod 4 * 64 + c mod 64 = c"
    unfolding x4 by simp
  show "a div 4 * 4 + a mod 4 * 16 div 16 = a"
    by simp
  show "(a mod 4 * 16 + b div 16) mod 16 * 16 + b mod 16 * 4 div 4 = b"
    unfolding x2 by simp
qed

lemma length_base64_encode: "length (base64_encode bs) mod 4 = 0"
  by (induction bs rule: base64_encode.induct) simp_all

lemma base64_encode_empty: "(base64_encode bs = []) = (bs = [])"
  by (cases bs rule: base64_encode.cases) simp_all

lemma pad_not_whitespace: "\<not> is_ascii_whitespace PAD"
  by (simp add: is_ascii_whitespace_def)

lemma base64_encode_no_whitespace:
  "filter (\<lambda>u. \<not> is_ascii_whitespace u) (base64_encode bs) = base64_encode bs"
proof (induction bs rule: base64_encode.induct)
  case 1
  show ?case by simp
next
  case (2 a)
  show ?case
    using sextet_bounds [OF unat_byte_less [of a] unat_byte_less [of a] unat_byte_less [of a]]
    by (simp add: b64_char_not_whitespace pad_not_whitespace)
next
  case (3 a b)
  show ?case
    using sextet_bounds [OF unat_byte_less [of a] unat_byte_less [of b] unat_byte_less [of b]]
    by (simp add: b64_char_not_whitespace pad_not_whitespace)
next
  case (4 a b c rest)
  then show ?case
    using sextet_bounds [OF unat_byte_less [of a] unat_byte_less [of b] unat_byte_less [of c]]
    by (simp add: b64_char_not_whitespace)
qed

lemma strip_padding_chunk:
  assumes "e \<noteq> []" "length e mod 4 = 0"
  shows "strip_padding (w # x # y # z # e) = w # x # y # z # strip_padding e"
proof -
  from assms(2) obtain k where k: "length e = 4 * k"
    by (auto simp: mod_eq_0_iff_dvd elim: dvdE)
  have "k \<noteq> 0"
  proof
    assume "k = 0"
    with k have "length e = 0" by simp
    with assms(1) show False by simp
  qed
  with k have len: "4 \<le> length e" by simp
  then have b: "butlast e \<noteq> []" by (cases e rule: rev_cases) auto
  from assms(2) have m: "length (w # x # y # z # e) mod 4 = 0" by simp
  from assms(1) b have l: "last (w # x # y # z # e) = last e"
    "last (butlast (w # x # y # z # e)) = last (butlast e)"
    "butlast (w # x # y # z # e) = w # x # y # z # butlast e"
    "butlast (butlast (w # x # y # z # e)) = w # x # y # z # butlast (butlast e)"
    by simp_all
  from len have g: "2 \<le> length (w # x # y # z # e)" "1 \<le> length (w # x # y # z # e)"
    "2 \<le> length e" "1 \<le> length e" by simp_all
  from b have l': "last (w # x # y # z # butlast e) = last (butlast e)"
    "butlast (w # x # y # z # butlast e) = w # x # y # z # butlast (butlast e)"
    by simp_all
  let ?big = "w # x # y # z # e"
  have se: "strip_padding e =
      (if last e = PAD \<and> last (butlast e) = PAD then butlast (butlast e)
       else if last e = PAD then butlast e else e)"
    by (simp only: strip_padding_def assms(2) g if_True simp_thms)
  have sb: "strip_padding ?big =
      (if last e = PAD \<and> last (butlast e) = PAD then w # x # y # z # butlast (butlast e)
       else if last e = PAD then w # x # y # z # butlast e else ?big)"
    by (simp only: strip_padding_def m g l l' if_True simp_thms)
  show ?thesis
    unfolding se sb by simp
qed

lemma those_values_chars:
  assumes "s1 < 64" "s2 < 64"
  shows "those_values (b64_char s1 # b64_char s2 # us) =
     (case those_values us of None \<Rightarrow> None | Some vs \<Rightarrow> Some (s1 # s2 # vs))"
  using assms by (simp add: b64_value_char split: option.splits)

lemma base64_decode_three:
  fixes a b c :: byte
  shows "base64_decode_sextets
     (unat a div 4 # (unat a mod 4 * 16 + unat b div 16)
        # (unat b mod 16 * 4 + unat c div 64) # unat c mod 64 # vs) =
     a # b # c # base64_decode_sextets vs"
  using sextet_bytes(1-3) [OF unat_byte_less [of a] unat_byte_less [of b] unat_byte_less [of c]]
  by simp

lemma base64_decode_two:
  fixes a b :: byte
  shows "base64_decode_sextets
     [unat a div 4, unat a mod 4 * 16 + unat b div 16, unat b mod 16 * 4] = [a, b]"
  using sextet_bytes(1,5) [OF unat_byte_less [of a] unat_byte_less [of b] unat_byte_less [of b]]
  by simp

lemma base64_decode_one:
  fixes a :: byte
  shows "base64_decode_sextets [unat a div 4, unat a mod 4 * 16] = [a]"
  using sextet_bytes(4) [OF unat_byte_less [of a] unat_byte_less [of a] unat_byte_less [of a]]
  by simp

lemma base64_core:
  "length (strip_padding (base64_encode bs)) mod 4 \<noteq> 1 \<and>
   (\<exists>vs. those_values (strip_padding (base64_encode bs)) = Some vs \<and>
         base64_decode_sextets vs = bs)"
proof (induction bs rule: base64_encode.induct)
  case 1
  show ?case by (simp add: strip_padding_def)
next
  case (2 a)
  note sb = sextet_bounds [OF unat_byte_less [of a] unat_byte_less [of a] unat_byte_less [of a]]
  let ?c1 = "b64_char (unat a div 4)"
  let ?c2 = "b64_char (unat a mod 4 * 16)"
  have strip: "strip_padding (base64_encode [a]) = [?c1, ?c2]"
    by (simp add: strip_padding_def)
  have vals: "those_values [?c1, ?c2] = Some [unat a div 4, unat a mod 4 * 16]"
    using b64_value_char [OF sb(1)] b64_value_char [OF sb(2)] by simp
  have "length (strip_padding (base64_encode [a])) mod 4 \<noteq> 1"
    unfolding strip by simp
  moreover have "those_values (strip_padding (base64_encode [a])) =
      Some [unat a div 4, unat a mod 4 * 16]"
    by (simp only: strip vals)
  moreover note base64_decode_one [of a]
  ultimately show ?case by blast
next
  case (3 a b)
  note sb = sextet_bounds [OF unat_byte_less [of a] unat_byte_less [of b] unat_byte_less [of b]]
  let ?c1 = "b64_char (unat a div 4)"
  let ?c2 = "b64_char (unat a mod 4 * 16 + unat b div 16)"
  let ?c3 = "b64_char (unat b mod 16 * 4)"
  have "?c3 \<noteq> PAD"
    using sb(4) by (rule b64_char_not_pad)
  then have strip: "strip_padding (base64_encode [a, b]) = [?c1, ?c2, ?c3]"
    by (simp add: strip_padding_def)
  have vals: "those_values [?c1, ?c2, ?c3] =
      Some [unat a div 4, unat a mod 4 * 16 + unat b div 16, unat b mod 16 * 4]"
    using b64_value_char [OF sb(1)] b64_value_char [OF sb(3)] b64_value_char [OF sb(4)]
    by simp
  have "length (strip_padding (base64_encode [a, b])) mod 4 \<noteq> 1"
    unfolding strip by simp
  moreover have "those_values (strip_padding (base64_encode [a, b])) =
      Some [unat a div 4, unat a mod 4 * 16 + unat b div 16, unat b mod 16 * 4]"
    by (simp only: strip vals)
  moreover note base64_decode_two [of a b]
  ultimately show ?case by blast
next
  case (4 a b c rest)
  note sb = sextet_bounds [OF unat_byte_less [of a] unat_byte_less [of b] unat_byte_less [of c]]
  let ?c1 = "b64_char (unat a div 4)"
  let ?c2 = "b64_char (unat a mod 4 * 16 + unat b div 16)"
  let ?c3 = "b64_char (unat b mod 16 * 4 + unat c div 64)"
  let ?c4 = "b64_char (unat c mod 64)"
  let ?e = "base64_encode rest"
  let ?vs = "\<lambda>vs. unat a div 4 # (unat a mod 4 * 16 + unat b div 16)
        # (unat b mod 16 * 4 + unat c div 64) # unat c mod 64 # vs"
  have enc: "base64_encode (a # b # c # rest) = ?c1 # ?c2 # ?c3 # ?c4 # ?e"
    by simp
  from "4.IH" obtain vs where vs: "those_values (strip_padding ?e) = Some vs"
    "base64_decode_sextets vs = rest" and len: "length (strip_padding ?e) mod 4 \<noteq> 1"
    by blast
  have strip: "strip_padding (?c1 # ?c2 # ?c3 # ?c4 # ?e) =
      ?c1 # ?c2 # ?c3 # ?c4 # strip_padding ?e"
  proof (cases "rest = []")
    case True
    have "?c4 \<noteq> PAD" using sb(6) by (rule b64_char_not_pad)
    with True show ?thesis by (simp add: strip_padding_def)
  next
    case False
    then have "?e \<noteq> []" by (simp add: base64_encode_empty)
    then show ?thesis
      using length_base64_encode [of rest] by (rule strip_padding_chunk)
  qed
  have vals: "those_values (?c1 # ?c2 # ?c3 # ?c4 # strip_padding ?e) = Some (?vs vs)"
    using b64_value_char [OF sb(1)] b64_value_char [OF sb(3)] b64_value_char [OF sb(5)]
      b64_value_char [OF sb(6)] vs(1)
    by simp
  have "length (strip_padding (base64_encode (a # b # c # rest))) mod 4 \<noteq> 1"
    unfolding enc strip using len by simp
  moreover have "those_values (strip_padding (base64_encode (a # b # c # rest))) = Some (?vs vs)"
    unfolding enc strip by (rule vals)
  moreover have "base64_decode_sextets (?vs vs) = a # b # c # rest"
    by (simp only: base64_decode_three vs(2))
  ultimately show ?case by blast
qed

lemma atob_base64_encode: "atob (base64_encode bs) = Inr (map ucast bs)"
proof -
  from base64_core [of bs] obtain vs where
    "length (strip_padding (base64_encode bs)) mod 4 \<noteq> 1"
    "those_values (strip_padding (base64_encode bs)) = Some vs"
    "base64_decode_sextets vs = bs"
    by blast
  then show ?thesis
    by (simp add: atob_def base64_encode_no_whitespace)
qed

subsection \<open>When the round trip holds\<close>

lemma TextDecoder_TextEncoder:
  assumes "well_formed s" "s = [] \<or> hd s \<noteq> 0xFEFF"
  shows "TextDecoder_decode (TextEncoder_encode s) = s"
proof -
  have "utf8_decoder utf8_initial (TextEncoder_encode s) = to_scalar_values s"
    unfolding TextEncoder_encode_def using to_scalar_values_scalar by (rule utf8_roundtrip)
  then have "TextDecoder_decode (TextEncoder_encode s) =
      concat (map utf16_encode_code_point (strip_bom (to_scalar_values s)))"
    by (simp only: TextDecoder_decode_def)
  also have "\<dots> = concat (map utf16_encode_code_point (to_scalar_values s))"
    using assms(2) by (simp only: to_scalar_values_no_bom)
  also have "\<dots> = s"
    using assms(1) by (rule utf16_roundtrip)
  finally show ?thesis .
qed

lemma unicodeBase64_roundtrip:
  assumes "well_formed s" "s = [] \<or> hd s \<noteq> 0xFEFF"
  shows "unicodeBase64Decode (base64_encode (TextEncoder_encode s)) = Inr s"
proof -
  have "map ucast (map ucast (TextEncoder_encode s) :: jsstring) = TextEncoder_encode s"
    by (simp add: ucast_ucast_byte map_idI)
  then show ?thesis
    by (simp add: unicodeBase64Decode_eq atob_base64_encode
        TextDecoder_TextEncoder [OF assms])
qed

text \<open>The round trip of \<open>encrypt\<close> and \<open>decrypt\<close> holds whenever the text combined
  with the password has no unpaired surrogate and does not start with U+FEFF.\<close>

lemma encrypt_decrypt_roundtrip:
  assumes "well_formed (xor_loop t p)"
    and "xor_loop t p = [] \<or> hd (xor_loop t p) \<noteq> 0xFEFF"
  shows "\<exists>c. encrypt t p = Inr c \<and> decrypt c p = Inr t"
proof -
  let ?c = "base64_encode (TextEncoder_encode (xor_loop t p))"
  have "encrypt t p = Inr ?c" by (rule encrypt_eq)
  moreover have "decrypt ?c p = Inr t"
    by (simp add: decrypt_def unicodeBase64_roundtrip [OF assms] xor_loop_involution)
  ultimately show ?thesis by blast
qed

text \<open>Combining with a password whose units are all below U+0400 (ASCII, Latin,
  Greek) keeps every unit in its surrogate class, so a well-formed text stays well
  formed.\<close>

lemma high_drop_bit: "is_high_surrogate u = (drop_bit 10 u = 54)"
proof -
  have "unat (drop_bit 10 u) = unat u div 1024"
    by (simp add: drop_bit_eq_div unat_div)
  moreover have "(unat u div 1024 = 54) = (0xD800 \<le> unat u \<and> unat u \<le> 0xDBFF)"
    by linarith
  moreover have "(drop_bit 10 u = 54) = (unat (drop_bit 10 u) = 54)"
    by (simp add: word_unat_eq_iff)
  ultimately show ?thesis by (simp add: high_unat)
qed

lemma low_drop_bit: "is_low_surrogate u = (drop_bit 10 u = 55)"
proof -
  have "unat (drop_bit 10 u) = unat u div 1024"
    by (simp add: drop_bit_eq_div unat_div)
  moreover have "(unat u div 1024 = 55) = (0xDC00 \<le> unat u \<and> unat u \<le> 0xDFFF)"
    by linarith
  moreover have "(drop_bit 10 u = 55) = (unat (drop_bit 10 u) = 55)"
    by (simp add: word_unat_eq_iff)
  ultimately show ?thesis by (simp add: low_unat)
qed

lemma small_drop_bit: "(k :: unit16) < 0x400 \<Longrightarrow> drop_bit 10 k = 0"
proof -
  assume "k < 0x400"
  then have "unat k < 1024" by (simp add: word_less_nat_alt)
  then have "unat (drop_bit 10 k) = 0"
    by (simp add: drop_bit_eq_div unat_div)
  then show ?thesis by (simp add: word_unat_eq_iff)
qed

lemma xor_small_surrogate:
  assumes "(k :: unit16) < 0x400"
  shows "is_high_surrogate (u XOR k) = is_high_surrogate u"
    and "is_low_surrogate (u XOR k) = is_low_surrogate u"
proof -
  have "drop_bit 10 (u XOR k) = drop_bit 10 u XOR drop_bit 10 k"
    by (rule drop_bit_xor)
  then have "drop_bit 10 (u XOR k) = drop_bit 10 u"
    by (simp add: small_drop_bit [OF assms])
  then show "is_high_surrogate (u XOR k) = is_high_surrogate u"
    and "is_low_surrogate (u XOR k) = is_low_surrogate u"
    by (simp_all add: high_drop_bit low_drop_bit)
qed

lemma well_formed_unpaired:
  "\<not> (is_high_surrogate u \<and> is_low_surrogate v) \<Longrightarrow>
   well_formed (u # v # vs) =
     (\<not> is_high_surrogate u \<and> \<not> is_low_surrogate u \<and> well_formed (v # vs))"
  by (subst well_formed.simps) (rule if_not_P)

lemma well_formed_paired:
  "is_high_surrogate u \<and> is_low_surrogate v \<Longrightarrow>
   well_formed (u # v # vs) = well_formed vs"
  by (subst well_formed.simps) (rule if_P)

lemma well_formed_same_classes:
  "list_all2 (\<lambda>a b. is_high_surrogate a = is_high_surrogate b \<and>
                     is_low_surrogate a = is_low_surrogate b) s s' \<Longrightarrow>
   well_formed s = well_formed s'"
proof (induction s arbitrary: s' rule: well_formed.induct)
  case 1
  then show ?case by simp
next
  case (2 u)
  then show ?case by (auto simp: list_all2_Cons1)
next
  case (3 u v vs)
  from "3.prems" obtain u' v' vs' where s': "s' = u' # v' # vs'"
    and u: "is_high_surrogate u = is_high_surrogate u'" "is_low_surrogate u = is_low_surrogate u'"
    and v: "is_high_surrogate v = is_high_surrogate v'" "is_low_surrogate v = is_low_surrogate v'"
    and r: "list_all2 (\<lambda>a b. is_high_surrogate a = is_high_surrogate b \<and>
                     is_low_surrogate a = is_low_surrogate b) vs vs'"
    by (auto simp: list_all2_Cons1)
  show ?case
  proof (cases "is_high_surrogate u \<and> is_low_surrogate v")
    case True
    with "3.IH"(1) r have "well_formed vs = well_formed vs'" by blast
    moreover from True u v have "is_high_surrogate u' \<and> is_low_surrogate v'" by simp
    ultimately show ?thesis
      unfolding s' by (simp only: well_formed_paired [OF True] well_formed_paired)
  next
    case False
    from v r have "list_all2 (\<lambda>a b. is_high_surrogate a = is_high_surrogate b \<and>
                     is_low_surrogate a = is_low_surrogate b) (v # vs) (v' # vs')"
      by simp
    with "3.IH"(2) False have "well_formed (v # vs) = well_formed (v' # vs')" by blast
    moreover from False u v have F': "\<not> (is_high_surrogate u' \<and> is_low_surrogate v')" by simp
    ultimately show ?thesis
      unfolding s' by (simp only: well_formed_unpaired [OF False] well_formed_unpaired [OF F'] u)
  qed
qed

lemma key_unit_small: "\<forall>k \<in> set p. k < 0x400 \<Longrightarrow> key_unit p i < 0x400"
  by (simp add: key_unit_def)

lemma nth_xor_loop: "i < length t \<Longrightarrow> xor_loop t p ! i = t ! i XOR key_unit p i"
  by (simp add: xor_loop_map)

lemma well_formed_xor_loop:
  assumes "\<forall>k \<in> set p. k < 0x400"
  shows "well_formed (xor_loop t p) = well_formed t"
proof (rule well_formed_same_classes)
  show "list_all2 (\<lambda>a b. is_high_surrogate a = is_high_surrogate b \<and>
                     is_low_surrogate a = is_low_surrogate b) (xor_loop t p) t"
    unfolding list_all2_conv_all_nth
    by (simp add: length_xor_loop nth_xor_loop xor_small_surrogate [OF key_unit_small [OF assms]])
qed

lemma hd_xor_loop: "t \<noteq> [] \<Longrightarrow> hd (xor_loop t p) = hd t XOR key_unit p 0"
proof -
  assume "t \<noteq> []"
  then have "0 < length t" by simp
  then have "xor_loop t p ! 0 = t ! 0 XOR key_unit p 0" by (rule nth_xor_loop)
  moreover from \<open>t \<noteq> []\<close> have "xor_loop t p \<noteq> []"
    using length_xor_loop [of t p] by auto
  ultimately show ?thesis using \<open>t \<noteq> []\<close> by (simp add: hd_conv_nth)
qed

lemma encrypt_decrypt_roundtrip_small_password:
  assumes "\<forall>k \<in> set p. k < 0x400" and "well_formed t"
    and "t = [] \<or> hd t XOR key_unit p 0 \<noteq> 0xFEFF"
  shows "\<exists>c. encrypt t p = Inr c \<and> decrypt c p = Inr t"
proof (rule encrypt_decrypt_roundtrip)
  show "well_formed (xor_loop t p)"
    using assms(1,2) by (simp add: well_formed_xor_loop)
  show "xor_loop t p = [] \<or> hd (xor_loop t p) \<noteq> 0xFEFF"
  proof (cases "t = []")
    case True
    then show ?thesis using length_xor_loop [of t p] by simp
  next
    case False
    with assms(3) show ?thesis by (simp add: hd_xor_loop)
  qed
qed

text \<open>With the empty password the round trip holds for every well-formed text that
  does not start with U+FEFF.\<close>

lemma empty_password_roundtrip:
  assumes "well_formed t" and "t = [] \<or> hd t \<noteq> 0xFEFF"
  shows "\<exists>c. unicodeBase64Encode t = Inr c \<and> encrypt t [] = Inr c \<and> decrypt c [] = Inr t"
proof -
  from assms have "\<exists>c. encrypt t [] = Inr c \<and> decrypt c [] = Inr t"
    by (intro encrypt_decrypt_roundtrip_small_password) (simp_all add: key_unit_def)
  then show ?thesis by (simp add: encrypt_empty_password)
qed

lemma encrypt_decrypt_roundtrip_example:
  "\<exists>c. encrypt (js ''hello'') (js ''key'') = Inr c \<and>
       decrypt c (js ''key'') = Inr (js ''hello'')"
proof (rule encrypt_decrypt_roundtrip)
  have x: "xor_loop (js ''hello'') (js ''key'') = [0x03, 0x00, 0x15, 0x07, 0x0A]"
    by (simp add: xor_loop_map key_unit_def js_def upt_rec)
  show "well_formed (xor_loop (js ''hello'') (js ''key''))"
    unfolding x by (simp add: is_high_surrogate_def is_low_surrogate_def)
  show "xor_loop (js ''hello'') (js ''key'') = [] \<or>
      hd (xor_loop (js ''hello'') (js ''key'')) \<noteq> 0xFEFF"
    unfolding x by simp
qed

subsection \<open>Concrete runs of the platform functions\<close>

lemma atob_ex1: "atob (js ''77+9'') = Inr [0xEF, 0xBF, 0xBD]"
  by (simp add: atob_def js_def is_ascii_whitespace_def strip_padding_def b64_value_def)

lemma atob_ex2: "atob (js ''a'') = Inl InvalidCharacterError"
  by (simp add: atob_def js_def is_ascii_whitespace_def strip_padding_def b64_value_def)

lemma decode_ex1: "TextDecoder_decode [0xEF, 0xBF, 0xBD] = [0xFFFD]"
  by (simp add: TextDecoder_decode_def utf8_decoder.simps utf8_initial_def utf8_lead_def
        strip_bom_def utf16_encode_code_point_def)

lemma atob_ex3: "atob (js ''77u/'') = Inr [0xEF, 0xBB, 0xBF]"
  by (simp add: atob_def js_def is_ascii_whitespace_def strip_padding_def b64_value_def)

lemma decode_ex3: "TextDecoder_decode [0xEF, 0xBB, 0xBF] = []"
  by (simp add: TextDecoder_decode_def utf8_decoder.simps utf8_initial_def utf8_lead_def
        strip_bom_def utf16_encode_code_point_def)

text \<open>
  Claim C5. \<open>decrypt\<close> throws exactly when the Base64 stage fails, that is when
  \<open>atob\<close> throws on the input, and what it throws then is the provider's decryption
  error; on every input that \<open>atob\<close> decodes, and for every password, it returns the
  decoded text combined with the password. A wrong password therefore gives a string,
  not an error.
\<close>

theorem decrypt_fails_iff_atob_fails:
  "isl (decrypt input password) = isl (atob input) \<and>
   isl (unicodeBase64Decode input) = isl (atob input) \<and>
   (isl (atob input) \<longrightarrow> decrypt input password = Inl DecryptFailed) \<and>
   (atob input = Inr binary \<longrightarrow>
      decrypt input password =
        Inr (xor_loop (TextDecoder_decode (binary_to_bytes binary)) password))"
  by (auto simp: decrypt_eq unicodeBase64Decode_eq binary_to_bytes_map split: sum.splits)

theorem decrypt_fails_iff_atob_fails_witness:
  "isl (atob (js ''a'')) \<and> decrypt (js ''a'') (js ''key'') = Inl DecryptFailed \<and>
   atob (js ''77+9'') = Inr [0xEF, 0xBF, 0xBD] \<and>
   decrypt (js ''77+9'') (js ''key'') = Inr [0xFF96]"
proof -
  have "xor_loop [0xFFFD] (js ''key'') = [0xFF96]"
    by (simp add: xor_loop_map key_unit_def js_def)
  then show ?thesis
    using decrypt_fails_iff_atob_fails [of "js ''a''" "js ''key''" "[]"]
      decrypt_fails_iff_atob_fails [of "js ''77+9''" "js ''key''" "[0xEF, 0xBF, 0xBD]"]
    by (simp add: atob_ex1 atob_ex2 binary_to_bytes_map decode_ex1)
qed

text \<open>A wrong password: \<open>hello\<close> encrypted with \<open>key\<close> and decrypted with \<open>kez\<close>
  is \<open>heolo\<close>.\<close>

lemma decrypt_wrong_password_example:
  "encrypt (js ''hello'') (js ''key'') = Inr (js ''AwAVBwo='') \<and>
   decrypt (js ''AwAVBwo='') (js ''kez'') = Inr (js ''heolo'')"
proof -
  have x: "xor_loop (js ''hello'') (js ''key'') = [0x03, 0x00, 0x15, 0x07, 0x0A]"
    by (simp add: xor_loop_map key_unit_def js_def upt_rec)
  have t: "TextEncoder_encode [0x03, 0x00, 0x15, 0x07, 0x0A] = [0x03, 0x00, 0x15, 0x07, 0x0A]"
    by (simp add: TextEncoder_encode_def is_high_surrogate_def is_low_surrogate_def
        utf8_encode_code_point_def)
  have b: "base64_encode [0x03, 0x00, 0x15, 0x07, 0x0A] = js ''AwAVBwo=''"
    by (simp add: b64_char_def js_def)
  have a: "atob (js ''AwAVBwo='') = Inr [0x03, 0x00, 0x15, 0x07, 0x0A]"
    by (simp add: atob_def js_def is_ascii_whitespace_def strip_padding_def b64_value_def)
  have d: "TextDecoder_decode (map ucast [0x03, 0x00, 0x15, 0x07, 0x0A :: unit16]) =
      [0x03, 0x00, 0x15, 0x07, 0x0A]"
    by (simp add: TextDecoder_decode_def utf8_decoder.simps utf8_initial_def utf8_lead_def
        strip_bom_def utf16_encode_code_point_def)
  have y: "xor_loop [0x03, 0x00, 0x15, 0x07, 0x0A] (js ''kez'') = js ''heolo''"
    by (simp add: xor_loop_map key_unit_def js_def upt_rec)
  show ?thesis
    by (simp only: encrypt_eq decrypt_eq x t b a d y sum.case)
qed

text \<open>
  Claim C1. The claim: for every password of at least one character and every text,
  \<open>decrypt(encrypt(t, p), p) == t\<close>. The code combines UTF-16 code units and then
  passes the result through a UTF-8 text encoder, which replaces an unpaired surrogate
  by U+FFFD. For the one-character text U+4E2D and the four-character password
  U+963F U+91CC U+5DF4 U+5DF4, which \<open>validatePassword\<close> accepts, the combined unit
  is the surrogate U+D812: \<open>encrypt\<close> returns \<open>77+9\<close>, the Base64 of U+FFFD, and
  \<open>decrypt\<close> of that with the same password is U+69C2, not U+4E2D. Where the
  combined text has no unpaired surrogate and does not start with U+FEFF the round
  trip holds (\<open>encrypt_decrypt_roundtrip\<close>).
\<close>

theorem encrypt_decrypt_unpaired_surrogate:
  "isValid (validatePassword [0x963F, 0x91CC, 0x5DF4, 0x5DF4]) \<and>
   encrypt [0x4E2D] [0x963F, 0x91CC, 0x5DF4, 0x5DF4] = Inr (js ''77+9'') \<and>
   decrypt (js ''77+9'') [0x963F, 0x91CC, 0x5DF4, 0x5DF4] = Inr [0x69C2]"
proof -
  have x: "xor_loop [0x4E2D] [0x963F, 0x91CC, 0x5DF4, 0x5DF4] = [0xD812]"
    by (simp add: xor_loop_map key_unit_def)
  have t: "TextEncoder_encode [0xD812] = [0xEF, 0xBF, 0xBD]"
    by (simp add: TextEncoder_encode_def is_high_surrogate_def is_low_surrogate_def
        utf8_encode_code_point_def)
  have b: "base64_encode [0xEF, 0xBF, 0xBD] = js ''77+9''"
    by (simp add: b64_char_def js_def)
  have d: "TextDecoder_decode (map ucast [0xEF, 0xBF, 0xBD :: unit16]) = [0xFFFD]"
    using decode_ex1 by simp
  have y: "xor_loop [0xFFFD] [0x963F, 0x91CC, 0x5DF4, 0x5DF4] = [0x69C2]"
    by (simp add: xor_loop_map key_unit_def)
  have v: "isValid (validatePassword [0x963F, 0x91CC, 0x5DF4, 0x5DF4])"
    by (simp add: validatePassword_def)
  have e: "encrypt [0x4E2D] [0x963F, 0x91CC, 0x5DF4, 0x5DF4] = Inr (js ''77+9'')"
    by (simp only: encrypt_eq x t b)
  have "decrypt (js ''77+9'') [0x963F, 0x91CC, 0x5DF4, 0x5DF4] = Inr [0x69C2]"
    by (simp only: decrypt_eq atob_ex1 d y sum.case)
  with v e show ?thesis by (simp only: simp_thms)
qed

text \<open>The other way the round trip is lost: the combined text starts with U+FEFF, here
  for the text U+FE9E and the password \<open>a\<close>.\<close>

lemma encrypt_decrypt_byte_order_mark:
  "encrypt [0xFE9E] (js ''a'') = Inr (js ''77u/'') \<and> decrypt (js ''77u/'') (js ''a'') = Inr []"
proof -
  have x: "xor_loop [0xFE9E] (js ''a'') = [0xFEFF]"
    by (simp add: xor_loop_map key_unit_def js_def)
  have t: "TextEncoder_encode [0xFEFF] = [0xEF, 0xBB, 0xBF]"
    by (simp add: TextEncoder_encode_def is_high_surrogate_def is_low_surrogate_def
        utf8_encode_code_point_def)
  have b: "base64_encode [0xEF, 0xBB, 0xBF] = js ''77u/''"
    by (simp add: b64_char_def js_def)
  have d: "TextDecoder_decode (map ucast [0xEF, 0xBB, 0xBF :: unit16]) = []"
    using decode_ex3 by simp
  have y: "xor_loop [] (js ''a'') = []"
    by (simp add: xor_loop_map)
  have e: "encrypt [0xFE9E] (js ''a'') = Inr (js ''77u/'')"
    by (simp only: encrypt_eq x t b)
  have "decrypt (js ''77u/'') (js ''a'') = Inr []"
    by (simp only: decrypt_eq atob_ex3 d y sum.case)
  with e show ?thesis by (simp only: simp_thms)
qed

text \<open>
  Claim C9. The claim: with the empty password \<open>encrypt\<close> does not fail, combining
  with the password changes nothing, \<open>encrypt(t, "")\<close> is the Unicode-safe Base64 of
  \<open>t\<close>, and \<open>decrypt(encrypt(t, ""), "") == t\<close>. The first three parts hold
  (\<open>encrypt_eq\<close>, \<open>xor_loop_empty_password\<close>, \<open>encrypt_empty_password\<close>). The last
  fails for a text that starts with the byte order mark U+FEFF, which \<open>TextDecoder\<close>
  drops: \<open>encrypt\<close> of the text U+FEFF is \<open>77u/\<close>, and \<open>decrypt\<close> of that is the
  empty string. For a well-formed text that does not start with U+FEFF it holds
  (\<open>empty_password_roundtrip\<close>).
\<close>

theorem empty_password_byte_order_mark:
  "encrypt [0xFEFF] [] = Inr (js ''77u/'') \<and>
   decrypt (js ''77u/'') [] = Inr []"
proof -
  have t: "TextEncoder_encode [0xFEFF] = [0xEF, 0xBB, 0xBF]"
    by (simp add: TextEncoder_encode_def is_high_surrogate_def is_low_surrogate_def
        utf8_encode_code_point_def)
  have b: "base64_encode [0xEF, 0xBB, 0xBF] = js ''77u/''"
    by (simp add: b64_char_def js_def)
  have d: "TextDecoder_decode (map ucast [0xEF, 0xBB, 0xBF :: unit16]) = []"
    using decode_ex3 by simp
  have e: "encrypt [0xFEFF] [] = Inr (js ''77u/'')"
    by (simp only: encrypt_eq xor_loop_empty_password t b)
  have "decrypt (js ''77u/'') [] = Inr []"
    by (simp only: decrypt_eq atob_ex3 d xor_loop_empty_password sum.case)
  with e show ?thesis by (simp only: simp_thms)
qed

end
